theory Spec2Isabelle
  imports Main "HOL-Library.Word"
begin

unbundle bit_operations_syntax

section \<open>Memory\<close>

text \<open>
  A buffer is the list of its bytes, and \<open>data_size\<close> is its length. A pointer into the
  buffer is a byte offset from its base; offsets are integers, because the backward scan
  of \<open>rich_header_from_data\<close> decrements its pointer below the base before it stops.
  A read that leaves the buffer has no value (\<open>None\<close>); the functions below turn it into
  the outcome \<open>OutOfBounds\<close>, which stands for what C leaves undefined. Words are read in
  little-endian byte order, the order of the machines the PE format lives on. The
  \<open>long\<close> a function returns is an integer: a difference of two offsets into one buffer
  fits.
\<close>

type_synonym byte = "8 word"
type_synonym u16 = "16 word"
type_synonym u32 = "32 word"

datatype fault = OutOfBounds int

definition peek :: "byte list \<Rightarrow> int \<Rightarrow> nat \<Rightarrow> byte list option" where
  "peek mem a n =
     (if 0 \<le> a \<and> a + int n \<le> int (length mem) then Some (take n (drop (nat a) mem))
      else None)"

definition le_word :: "byte list \<Rightarrow> 'a::len word" where
  "le_word bs = foldr (\<lambda>b acc. ucast b OR push_bit 8 acc) bs 0"

primrec bytes_of :: "nat \<Rightarrow> 'a::len word \<Rightarrow> byte list" where
  "bytes_of 0 w = []"
| "bytes_of (Suc n) w = ucast w # bytes_of n (drop_bit 8 w)"

definition load32 :: "byte list \<Rightarrow> int \<Rightarrow> u32 option" where
  "load32 mem a = map_option le_word (peek mem a 4)"

text \<open>Two-byte reads, and the store of a word: it fails outside the buffer as a read does.\<close>

definition load16 :: "byte list \<Rightarrow> int \<Rightarrow> u16 option" where
  "load16 mem a = map_option le_word (peek mem a 2)"

definition store32 :: "byte list \<Rightarrow> int \<Rightarrow> u32 \<Rightarrow> byte list option" where
  "store32 mem a w =
     (if 0 \<le> a \<and> a + 4 \<le> int (length mem)
      then Some (take (nat a) mem @ bytes_of 4 w @ drop (nat a + 4) mem)
      else None)"

section \<open>rich\_header\_from\_data\<close>

text \<open>The two signatures, \<open>{'R','i','c','h'}\<close> and \<open>{'D','a','n','S'}\<close>.\<close>

definition rich_header_signature :: "byte list" where
  "rich_header_signature = [0x52, 0x69, 0x63, 0x68]"

definition rich_header_dans :: "byte list" where
  "rich_header_dans = [0x44, 0x61, 0x6E, 0x53]"

text \<open>
  The forward loop. \<open>p\<close> is a \<open>uint32_t*\<close> that starts at \<open>data + 64\<close>, so \<open>p += 1\<close>
  advances four bytes. The loop runs while \<open>p + 4 < data + data_size\<close> and compares the
  four bytes at \<open>p\<close> with the signature. The result is the offset of the match, if any, and
  the offsets of the four-byte windows the loop has read, in order.
\<close>

function find_rich :: "byte list \<Rightarrow> int \<Rightarrow> (fault + int option) \<times> int list" where
  "find_rich data p =
     (if p + 4 < int (length data) then
        (case peek data p 4 of
           None \<Rightarrow> (Inl (OutOfBounds p), [p])
         | Some w \<Rightarrow>
             if w = rich_header_signature then (Inr (Some p), [p])
             else (case find_rich data (p + 4) of (r, tr) \<Rightarrow> (r, p # tr)))
      else (Inr None, []))"
  by pat_completeness auto
termination
  by (relation "measure (\<lambda>(data, p). nat (int (length data) - p))") auto

text \<open>
  The backward loop: \<open>for (p = *rhdr; p >= data; --p)\<close>, four bytes a step. Each round
  reads the word at \<open>p\<close> and the key, the word at \<open>*rhdr + 4\<close>, and returns
  \<open>*rhdr - p\<close> when their XOR is the word \<open>DanS\<close>; when \<open>p\<close> has passed the base the
  function returns \<open>-2\<close>.
\<close>

function find_dans :: "byte list \<Rightarrow> int \<Rightarrow> int \<Rightarrow> (fault + int) \<times> int list" where
  "find_dans data rh p =
     (if 0 \<le> p then
        (case load32 data p of
           None \<Rightarrow> (Inl (OutOfBounds p), [p])
         | Some w \<Rightarrow>
             (case load32 data (rh + 4) of
                None \<Rightarrow> (Inl (OutOfBounds (rh + 4)), [p, rh + 4])
              | Some key \<Rightarrow>
                  if w XOR key = le_word rich_header_dans then (Inr (rh - p), [p, rh + 4])
                  else (case find_dans data rh (p - 4) of
                          (r, tr) \<Rightarrow> (r, p # (rh + 4) # tr))))
      else (Inr (- 2), []))"
  by pat_completeness auto
termination
  by (relation "measure (\<lambda>(data, rh, p). nat (p + 4))") auto

text \<open>
  The call: its return value (or the fault of a read outside the buffer), the value of the
  caller's \<open>*rhdr\<close> afterwards (an offset from \<open>data\<close>, as every pointer here), and the
  reads it made. \<open>*rhdr\<close> is written as soon as the forward loop finds the signature.
\<close>

record locate_result =
  ret :: "fault + int"
  rhdr :: int
  reads :: "int list"

definition rich_header_from_data :: "byte list \<Rightarrow> int \<Rightarrow> locate_result" where
  "rich_header_from_data data rhdr0 =
     (case find_rich data 64 of
        (Inl f, tr) \<Rightarrow> \<lparr>ret = Inl f, rhdr = rhdr0, reads = tr\<rparr>
      | (Inr None, tr) \<Rightarrow> \<lparr>ret = Inr (- 1), rhdr = rhdr0, reads = tr\<rparr>
      | (Inr (Some q), tr) \<Rightarrow>
          (case find_dans data q q of
             (r, tr') \<Rightarrow> \<lparr>ret = r, rhdr = q, reads = tr @ tr'\<rparr>))"

section \<open>rich\_header\_unmask\<close>

text \<open>
  The function works on memory it does not own the bounds of: \<open>rhdr\<close> points to the
  signature, the masked header is the \<open>masked_rhdr_size\<close> bytes before it, and
  \<open>masked_rhdr\<close> is where the caller wants the result, inside the file (the example
  program passes \<open>rhdr - masked_rhdr_size\<close> and overwrites the header in place) or in a
  buffer of its own. Memory is one list of bytes that holds both, and all three pointers are
  offsets into it. Round \<open>i\<close> of the loop reads the word \<open>p[i]\<close> and the key and
  stores their XOR at word \<open>i\<close> of the destination, so a later round reads what an
  earlier one has written when the two regions overlap.
\<close>

function unmask_loop :: "byte list \<Rightarrow> int \<Rightarrow> nat \<Rightarrow> int \<Rightarrow> nat \<Rightarrow> fault + byte list" where
  "unmask_loop mem rh sz dst i =
     (if i < sz div 4 then
        (case load32 mem (rh - int sz + 4 * int i) of
           None \<Rightarrow> Inl (OutOfBounds (rh - int sz + 4 * int i))
         | Some w \<Rightarrow>
             (case load32 mem (rh + 4) of
                None \<Rightarrow> Inl (OutOfBounds (rh + 4))
              | Some key \<Rightarrow>
                  (case store32 mem (dst + 4 * int i) (w XOR key) of
                     None \<Rightarrow> Inl (OutOfBounds (dst + 4 * int i))
                   | Some mem' \<Rightarrow> unmask_loop mem' rh sz dst (i + 1))))
      else Inr mem)"
  by pat_completeness auto
termination
  by (relation "measure (\<lambda>(mem, rh, sz, dst, i). sz div 4 - i)") auto

definition rich_header_unmask :: "byte list \<Rightarrow> int \<Rightarrow> nat \<Rightarrow> int \<Rightarrow> fault + byte list" where
  "rich_header_unmask mem rh masked_rhdr_size masked_rhdr =
     unmask_loop mem rh masked_rhdr_size masked_rhdr 0"

text \<open>
  The entries of the unmasked header, as the caller reads them: \<open>Products[i]\<close> of an
  \<open>IMAGE_MASKED_RICH_HEADER\<close> at \<open>hdr\<close> lies 16 bytes in (after \<open>MaskedSignature\<close>
  and \<open>NullPadding[3]\<close>) plus 8 bytes an entry: two 16-bit fields and a 32-bit one.
\<close>

record IMAGE_MASKED_RICH_HEADER_PRODUCT =
  BuildNumber :: u16
  ProductID :: u16
  ObjectCount :: u32

definition Products :: "byte list \<Rightarrow> int \<Rightarrow> nat \<Rightarrow> IMAGE_MASKED_RICH_HEADER_PRODUCT option" where
  "Products mem hdr i =
     (case load16 mem (hdr + 16 + 8 * int i) of
        None \<Rightarrow> None
      | Some b \<Rightarrow>
          (case load16 mem (hdr + 16 + 8 * int i + 2) of
             None \<Rightarrow> None
           | Some p \<Rightarrow>
               (case load32 mem (hdr + 16 + 8 * int i + 4) of
                  None \<Rightarrow> None
                | Some c \<Rightarrow> Some \<lparr>BuildNumber = b, ProductID = p, ObjectCount = c\<rparr>)))"

text \<open>
  The macro \<open>rich_header_products_len\<close>:
  \<open>(rich_header_size - sizeof(uint32_t)*4) / sizeof(IMAGE_MASKED_RICH_HEADER_PRODUCT)\<close>, in
  \<open>size_t\<close>, 64 bits wide: the subtraction wraps around below 16.
\<close>

definition rich_header_products_len :: "nat \<Rightarrow> nat" where
  "rich_header_products_len rich_header_size =
     ((rich_header_size + 2 ^ 64 - 16) mod 2 ^ 64) div 8"

section \<open>The classifiers\<close>

text \<open>
  \<open>rich_header_productid_to_cstr\<close> is a \<open>switch\<close> over the product identifier with one
  \<open>case\<close> a name and \<open>default: return ""\<close>: the cases are the pairs of this list, in the
  order of the source, and the function looks the identifier up.
\<close>

definition product_names :: "(u16 \<times> string) list" where
  "product_names =
    [(0x0000, ''Unknown''), (0x0001, ''Import0''), (0x0002, ''Linker510''),
     (0x0003, ''Cvtomf510''), (0x0004, ''Linker600''), (0x0005, ''Cvtomf600''),
     (0x0006, ''Cvtres500''), (0x0007, ''Utc11_Basic''), (0x0008, ''Utc11_C''),
     (0x0009, ''Utc12_Basic''), (0x000a, ''Utc12_C''), (0x000b, ''Utc12_CPP''),
     (0x000c, ''AliasObj60''), (0x000d, ''VisualBasic60''), (0x000e, ''Masm613''),
     (0x000f, ''Masm710''), (0x0010, ''Linker511''), (0x0011, ''Cvtomf511''),
     (0x0012, ''Masm614''), (0x0013, ''Linker512''), (0x0014, ''Cvtomf512''),
     (0x0015, ''Utc12_C_Std''), (0x0016, ''Utc12_CPP_Std''), (0x0017, ''Utc12_C_Book''),
     (0x0018, ''Utc12_CPP_Book''), (0x0019, ''Implib700''), (0x001a, ''Cvtomf700''),
     (0x001b, ''Utc13_Basic''), (0x001c, ''Utc13_C''), (0x001d, ''Utc13_CPP''),
     (0x001e, ''Linker610''), (0x001f, ''Cvtomf610''), (0x0020, ''Linker601''),
     (0x0021, ''Cvtomf601''), (0x0022, ''Utc12_1_Basic''), (0x0023, ''Utc12_1_C''),
     (0x0024, ''Utc12_1_CPP''), (0x0025, ''Linker620''), (0x0026, ''Cvtomf620''),
     (0x0027, ''AliasObj70''), (0x0028, ''Linker621''), (0x0029, ''Cvtomf621''),
     (0x002a, ''Masm615''), (0x002b, ''Utc13_LTCG_C''), (0x002c, ''Utc13_LTCG_CPP''),
     (0x002d, ''Masm620''), (0x002e, ''ILAsm100''), (0x002f, ''Utc12_2_Basic''),
     (0x0030, ''Utc12_2_C''), (0x0031, ''Utc12_2_CPP''), (0x0032, ''Utc12_2_C_Std''),
     (0x0033, ''Utc12_2_CPP_Std''), (0x0034, ''Utc12_2_C_Book''),
     (0x0035, ''Utc12_2_CPP_Book''), (0x0036, ''Implib622''), (0x0037, ''Cvtomf622''),
     (0x0038, ''Cvtres501''), (0x0039, ''Utc13_C_Std''), (0x003a, ''Utc13_CPP_Std''),
     (0x003b, ''Cvtpgd1300''), (0x003c, ''Linker622''), (0x003d, ''Linker700''),
     (0x003e, ''Export622''), (0x003f, ''Export700''), (0x0040, ''Masm700''),
     (0x0041, ''Utc13_POGO_I_C''), (0x0042, ''Utc13_POGO_I_CPP''),
     (0x0043, ''Utc13_POGO_O_C''), (0x0044, ''Utc13_POGO_O_CPP''), (0x0045, ''Cvtres700''),
     (0x0046, ''Cvtres710p''), (0x0047, ''Linker710p''), (0x0048, ''Cvtomf710p''),
     (0x0049, ''Export710p''), (0x004a, ''Implib710p''), (0x004b, ''Masm710p''),
     (0x004c, ''Utc1310p_C''), (0x004d, ''Utc1310p_CPP''), (0x004e, ''Utc1310p_C_Std''),
     (0x004f, ''Utc1310p_CPP_Std''), (0x0050, ''Utc1310p_LTCG_C''),
     (0x0051, ''Utc1310p_LTCG_CPP''), (0x0052, ''Utc1310p_POGO_I_C''),
     (0x0053, ''Utc1310p_POGO_I_CPP''), (0x0054, ''Utc1310p_POGO_O_C''),
     (0x0055, ''Utc1310p_POGO_O_CPP''), (0x0056, ''Linker624''), (0x0057, ''Cvtomf624''),
     (0x0058, ''Export624''), (0x0059, ''Implib624''), (0x005a, ''Linker710''),
     (0x005b, ''Cvtomf710''), (0x005c, ''Export710''), (0x005d, ''Implib710''),
     (0x005e, ''Cvtres710''), (0x005f, ''Utc1310_C''), (0x0060, ''Utc1310_CPP''),
     (0x0061, ''Utc1310_C_Std''), (0x0062, ''Utc1310_CPP_Std''),
     (0x0063, ''Utc1310_LTCG_C''), (0x0064, ''Utc1310_LTCG_CPP''),
     (0x0065, ''Utc1310_POGO_I_C''), (0x0066, ''Utc1310_POGO_I_CPP''),
     (0x0067, ''Utc1310_POGO_O_C''), (0x0068, ''Utc1310_POGO_O_CPP''),
     (0x0069, ''AliasObj710''), (0x006a, ''AliasObj710p''), (0x006b, ''Cvtpgd1310''),
     (0x006c, ''Cvtpgd1310p''), (0x006d, ''Utc1400_C''), (0x006e, ''Utc1400_CPP''),
     (0x006f, ''Utc1400_C_Std''), (0x0070, ''Utc1400_CPP_Std''),
     (0x0071, ''Utc1400_LTCG_C''), (0x0072, ''Utc1400_LTCG_CPP''),
     (0x0073, ''Utc1400_POGO_I_C''), (0x0074, ''Utc1400_POGO_I_CPP''),
     (0x0075, ''Utc1400_POGO_O_C''), (0x0076, ''Utc1400_POGO_O_CPP''),
     (0x0077, ''Cvtpgd1400''), (0x0078, ''Linker800''), (0x0079, ''Cvtomf800''),
     (0x007a, ''Export800''), (0x007b, ''Implib800''), (0x007c, ''Cvtres800''),
     (0x007d, ''Masm800''), (0x007e, ''AliasObj800''), (0x007f, ''PhoenixPrerelease''),
     (0x0080, ''Utc1400_CVTCIL_C''), (0x0081, ''Utc1400_CVTCIL_CPP''),
     (0x0082, ''Utc1400_LTCG_MSIL''), (0x0083, ''Utc1500_C''), (0x0084, ''Utc1500_CPP''),
     (0x0085, ''Utc1500_C_Std''), (0x0086, ''Utc1500_CPP_Std''),
     (0x0087, ''Utc1500_CVTCIL_C''), (0x0088, ''Utc1500_CVTCIL_CPP''),
     (0x0089, ''Utc1500_LTCG_C''), (0x008a, ''Utc1500_LTCG_CPP''),
     (0x008b, ''Utc1500_LTCG_MSIL''), (0x008c, ''Utc1500_POGO_I_C''),
     (0x008d, ''Utc1500_POGO_I_CPP''), (0x008e, ''Utc1500_POGO_O_C''),
     (0x008f, ''Utc1500_POGO_O_CPP''), (0x0090, ''Cvtpgd1500''), (0x0091, ''Linker900''),
     (0x0092, ''Export900''), (0x0093, ''Implib900''), (0x0094, ''Cvtres900''),
     (0x0095, ''Masm900''), (0x0096, ''AliasObj900''), (0x0097, ''Resource''),
     (0x0098, ''AliasObj1000''), (0x0099, ''Cvtpgd1600''), (0x009a, ''Cvtres1000''),
     (0x009b, ''Export1000''), (0x009c, ''Implib1000''), (0x009d, ''Linker1000''),
     (0x009e, ''Masm1000''), (0x009f, ''Phx1600_C''), (0x00a0, ''Phx1600_CPP''),
     (0x00a1, ''Phx1600_CVTCIL_C''), (0x00a2, ''Phx1600_CVTCIL_CPP''),
     (0x00a3, ''Phx1600_LTCG_C''), (0x00a4, ''Phx1600_LTCG_CPP''),
     (0x00a5, ''Phx1600_LTCG_MSIL''), (0x00a6, ''Phx1600_POGO_I_C''),
     (0x00a7, ''Phx1600_POGO_I_CPP''), (0x00a8, ''Phx1600_POGO_O_C''),
     (0x00a9, ''Phx1600_POGO_O_CPP''), (0x00aa, ''Utc1600_C''), (0x00ab, ''Utc1600_CPP''),
     (0x00ac, ''Utc1600_CVTCIL_C''), (0x00ad, ''Utc1600_CVTCIL_CPP''),
     (0x00ae, ''Utc1600_LTCG_C''), (0x00af, ''Utc1600_LTCG_CPP''),
     (0x00b0, ''Utc1600_LTCG_MSIL''), (0x00b1, ''Utc1600_POGO_I_C''),
     (0x00b2, ''Utc1600_POGO_I_CPP''), (0x00b3, ''Utc1600_POGO_O_C''),
     (0x00b4, ''Utc1600_POGO_O_CPP''), (0x00b5, ''AliasObj1010''),
     (0x00b6, ''Cvtpgd1610''), (0x00b7, ''Cvtres1010''), (0x00b8, ''Export1010''),
     (0x00b9, ''Implib1010''), (0x00ba, ''Linker1010''), (0x00bb, ''Masm1010''),
     (0x00bc, ''Utc1610_C''), (0x00bd, ''Utc1610_CPP''), (0x00be, ''Utc1610_CVTCIL_C''),
     (0x00bf, ''Utc1610_CVTCIL_CPP''), (0x00c0, ''Utc1610_LTCG_C''),
     (0x00c1, ''Utc1610_LTCG_CPP''), (0x00c2, ''Utc1610_LTCG_MSIL''),
     (0x00c3, ''Utc1610_POGO_I_C''), (0x00c4, ''Utc1610_POGO_I_CPP''),
     (0x00c5, ''Utc1610_POGO_O_C''), (0x00c6, ''Utc1610_POGO_O_CPP''),
     (0x00c7, ''AliasObj1100''), (0x00c8, ''Cvtpgd1700''), (0x00c9, ''Cvtres1100''),
     (0x00ca, ''Export1100''), (0x00cb, ''Implib1100''), (0x00cc, ''Linker1100''),
     (0x00cd, ''Masm1100''), (0x00ce, ''Utc1700_C''), (0x00cf, ''Utc1700_CPP''),
     (0x00d0, ''Utc1700_CVTCIL_C''), (0x00d1, ''Utc1700_CVTCIL_CPP''),
     (0x00d2, ''Utc1700_LTCG_C''), (0x00d3, ''Utc1700_LTCG_CPP''),
     (0x00d4, ''Utc1700_LTCG_MSIL''), (0x00d5, ''Utc1700_POGO_I_C''),
     (0x00d6, ''Utc1700_POGO_I_CPP''), (0x00d7, ''Utc1700_POGO_O_C''),
     (0x00d8, ''Utc1700_POGO_O_CPP''), (0x00d9, ''AliasObj1200''),
     (0x00da, ''Cvtpgd1800''), (0x00db, ''Cvtres1200''), (0x00dc, ''Export1200''),
     (0x00dd, ''Implib1200''), (0x00de, ''Linker1200''), (0x00df, ''Masm1200''),
     (0x00e0, ''Utc1800_C''), (0x00e1, ''Utc1800_CPP''), (0x00e2, ''Utc1800_CVTCIL_C''),
     (0x00e3, ''Utc1800_CVTCIL_CPP''), (0x00e4, ''Utc1800_LTCG_C''),
     (0x00e5, ''Utc1800_LTCG_CPP''), (0x00e6, ''Utc1800_LTCG_MSIL''),
     (0x00e7, ''Utc1800_POGO_I_C''), (0x00e8, ''Utc1800_POGO_I_CPP''),
     (0x00e9, ''Utc1800_POGO_O_C''), (0x00ea, ''Utc1800_POGO_O_CPP''),
     (0x00eb, ''AliasObj1210''), (0x00ec, ''Cvtpgd1810''), (0x00ed, ''Cvtres1210''),
     (0x00ee, ''Export1210''), (0x00ef, ''Implib1210''), (0x00f0, ''Linker1210''),
     (0x00f1, ''Masm1210''), (0x00f2, ''Utc1810_C''), (0x00f3, ''Utc1810_CPP''),
     (0x00f4, ''Utc1810_CVTCIL_C''), (0x00f5, ''Utc1810_CVTCIL_CPP''),
     (0x00f6, ''Utc1810_LTCG_C''), (0x00f7, ''Utc1810_LTCG_CPP''),
     (0x00f8, ''Utc1810_LTCG_MSIL''), (0x00f9, ''Utc1810_POGO_I_C''),
     (0x00fa, ''Utc1810_POGO_I_CPP''), (0x00fb, ''Utc1810_POGO_O_C''),
     (0x00fc, ''Utc1810_POGO_O_CPP''), (0x00fd, ''AliasObj1400''),
     (0x00fe, ''Cvtpgd1900''), (0x00ff, ''Cvtres1400''), (0x0100, ''Export1400''),
     (0x0101, ''Implib1400''), (0x0102, ''Linker1400''), (0x0103, ''Masm1400''),
     (0x0104, ''Utc1900_C''), (0x0105, ''Utc1900_CPP''), (0x0106, ''Utc1900_CVTCIL_C''),
     (0x0107, ''Utc1900_CVTCIL_CPP''), (0x0108, ''Utc1900_LTCG_C''),
     (0x0109, ''Utc1900_LTCG_CPP''), (0x010a, ''Utc1900_LTCG_MSIL''),
     (0x010b, ''Utc1900_POGO_I_C''), (0x010c, ''Utc1900_POGO_I_CPP''),
     (0x010d, ''Utc1900_POGO_O_C''), (0x010e, ''Utc1900_POGO_O_CPP'')]"


definition rich_header_productid_to_cstr :: "u16 \<Rightarrow> string" where
  "rich_header_productid_to_cstr product_id =
     (case map_of product_names product_id of Some name \<Rightarrow> name | None \<Rightarrow> '''')"


text \<open>
  \<open>rich_header_productid_to_vsver_cstr\<close> is a chain of range tests; the first that holds
  decides, and the last \<open>return\<close> is the empty string.
\<close>

definition rich_header_productid_to_vsver_cstr :: "u16 \<Rightarrow> string" where
  "rich_header_productid_to_vsver_cstr product_id =
     (if 0x0106 \<le> product_id \<and> product_id \<le> 0x010a then ''Visual Studio 2017 14.01+''
      else if 0x00fd \<le> product_id \<and> product_id \<le> 0x0106 then ''Visual Studio 2015 14.00''
      else if 0x00eb \<le> product_id \<and> product_id \<le> 0x00fd then ''Visual Studio 2013 12.10''
      else if 0x00d9 \<le> product_id \<and> product_id \<le> 0x00eb then ''Visual Studio 2013 12.00''
      else if 0x00c7 \<le> product_id \<and> product_id \<le> 0x00d9 then ''Visual Studio 2012 11.00''
      else if 0x00b5 \<le> product_id \<and> product_id \<le> 0x00c7 then ''Visual Studio 2010 10.10''
      else if 0x0098 \<le> product_id \<and> product_id \<le> 0x00b5 then ''Visual Studio 2010 10.00''
      else if 0x0083 \<le> product_id \<and> product_id \<le> 0x0098 then ''Visual Studio 2008 09.00''
      else if 0x006d \<le> product_id \<and> product_id \<le> 0x0083 then ''Visual Studio 2005 08.00''
      else if 0x005a \<le> product_id \<and> product_id \<le> 0x006d then ''Visual Studio 2003 07.10''
      else if 0x0019 \<le> product_id \<and> product_id \<le> 0x0045 then ''Visual Studio 2002 07.00''
      else if (0xA \<le> product_id \<and> product_id \<le> 0xD) \<or>
              (0x15 \<le> product_id \<and> product_id \<le> 0x16) then ''Visual Studio 6.0 06.00''
      else if product_id = 0x2 \<or> product_id = 0x6 \<or> product_id = 0xC \<or> product_id = 0xE
        then ''Visual Studio 97 05.00''
      else if product_id = 1 then ''Visual Studio''
      else '''')"


text \<open>The release labels that chain can return.\<close>

definition vs_releases :: "string list" where
  "vs_releases =
     [''Visual Studio 2017 14.01+'', ''Visual Studio 2015 14.00'', ''Visual Studio 2013 12.10'',
      ''Visual Studio 2013 12.00'', ''Visual Studio 2012 11.00'', ''Visual Studio 2010 10.10'',
      ''Visual Studio 2010 10.00'', ''Visual Studio 2008 09.00'', ''Visual Studio 2005 08.00'',
      ''Visual Studio 2003 07.10'', ''Visual Studio 2002 07.00'', ''Visual Studio 6.0 06.00'',
      ''Visual Studio 97 05.00'', ''Visual Studio'']"

section \<open>Words of the claims\<close>

text \<open>
  The signature stands at offset \<open>a\<close>; the word at offset \<open>a\<close>, XORed with the key, is
  the word \<open>DanS\<close>.
\<close>

definition rich_at :: "byte list \<Rightarrow> int \<Rightarrow> bool" where
  "rich_at data a = (peek data a 4 = Some rich_header_signature)"

definition dans_at :: "byte list \<Rightarrow> u32 \<Rightarrow> int \<Rightarrow> bool" where
  "dans_at data key a =
     (case load32 data a of None \<Rightarrow> False | Some w \<Rightarrow> w XOR key = le_word rich_header_dans)"
text \<open>
  The length the specification asks of a header: at least 16 bytes, and 16 bytes plus a
  multiple of 8.
\<close>

definition length_invariant :: "int \<Rightarrow> bool" where
  "length_invariant n = (16 \<le> n \<and> (n - 16) mod 8 = 0)"

text \<open>
  The file of the round trip: padding, then the words of the header (\<open>DanS\<close>, three zero
  words, two words an entry: build number in the low half and product identifier in the
  high half of the first, the count in the second), each XORed with the key, then the
  signature and the key.
\<close>

definition product_words :: "IMAGE_MASKED_RICH_HEADER_PRODUCT \<Rightarrow> u32 list" where
  "product_words e = [ucast (BuildNumber e) OR push_bit 16 (ucast (ProductID e)), ObjectCount e]"

definition header_words :: "IMAGE_MASKED_RICH_HEADER_PRODUCT list \<Rightarrow> u32 list" where
  "header_words prods = le_word rich_header_dans # 0 # 0 # 0 # concat (map product_words prods)"

definition assemble :: "byte list \<Rightarrow> u32 \<Rightarrow> IMAGE_MASKED_RICH_HEADER_PRODUCT list \<Rightarrow> byte list" where
  "assemble pad key prods =
     pad @ concat (map (\<lambda>w. bytes_of 4 (w XOR key)) (header_words prods)) @
     rich_header_signature @ bytes_of 4 key"

section \<open>Buffers of the examples\<close>

text \<open>
  Four small files, zero but for their last bytes: the masked \<open>DanS\<close> word (key 0) right
  before the signature; no \<open>DanS\<close> word at all; the signature at the odd offset 65; the
  signature at offset 64 with one byte of its key missing.
\<close>

definition buf_dans_adjacent :: "byte list" where
  "buf_dans_adjacent =
     replicate 60 0 @ [0x44, 0x61, 0x6E, 0x53] @ [0x52, 0x69, 0x63, 0x68] @ [0, 0, 0, 0]"

definition buf_no_dans :: "byte list" where
  "buf_no_dans = replicate 64 0 @ [0x52, 0x69, 0x63, 0x68] @ [0, 0, 0, 0]"

definition buf_unaligned :: "byte list" where
  "buf_unaligned = replicate 65 0 @ [0x52, 0x69, 0x63, 0x68] @ [0, 0, 0, 0]"

definition buf_key_cut :: "byte list" where
  "buf_key_cut = replicate 64 0 @ [0x52, 0x69, 0x63, 0x68] @ [0, 0, 0]"

text \<open>A header of length 4 that starts at offset 64, after 64 bytes \<open>b\<close>.\<close>

definition buf_dans_at_64 :: "byte \<Rightarrow> byte list" where
  "buf_dans_at_64 b =
     replicate 64 b @ [0x44, 0x61, 0x6E, 0x53] @ [0x52, 0x69, 0x63, 0x68] @ [0, 0, 0, 0]"

text \<open>
  The scenario of the specification: key \<open>0x12345678\<close>, one entry with build number
  \<open>0x1234\<close>, product \<open>0x00aa\<close> and count 7, after 64 zero bytes.
\<close>

definition buf_one_product :: "byte list" where
  "buf_one_product =
     assemble (replicate 64 0) 0x12345678
       [\<lparr>BuildNumber = 0x1234, ProductID = 0x00aa, ObjectCount = 7\<rparr>]"

text \<open>
  Four files assembled as the scenario is, each with one thing changed: 65 bytes of
  padding; a count that is the word \<open>DanS\<close>; the key \<open>Rich XOR DanS\<close>; padding that
  ends with the bytes of the signature.
\<close>

definition buf_odd_padding :: "byte list" where
  "buf_odd_padding =
     assemble (replicate 65 0) 0x12345678
       [\<lparr>BuildNumber = 0x1234, ProductID = 0x00aa, ObjectCount = 7\<rparr>]"

definition buf_dans_count :: "byte list" where
  "buf_dans_count =
     assemble (replicate 64 0) 0x12345678
       [\<lparr>BuildNumber = 0x1234, ProductID = 0x00aa, ObjectCount = 0x536E6144\<rparr>]"

definition buf_key_clash :: "byte list" where
  "buf_key_clash =
     assemble (replicate 64 0) 0x3B0D0816
       [\<lparr>BuildNumber = 0x1234, ProductID = 0x00aa, ObjectCount = 7\<rparr>]"

definition buf_rich_in_padding :: "byte list" where
  "buf_rich_in_padding =
     assemble (replicate 64 0 @ rich_header_signature) 0x12345678
       [\<lparr>BuildNumber = 0x1234, ProductID = 0x00aa, ObjectCount = 7\<rparr>]"

section \<open>The forward loop\<close>

declare find_rich.simps [simp del] find_dans.simps [simp del]

lemma peek_in_range:
  "0 \<le> a \<Longrightarrow> a + int n \<le> int (length mem) \<Longrightarrow> peek mem a n = Some (take n (drop (nat a) mem))"
  by (simp add: peek_def)

lemma find_rich_stop: "\<not> p + 4 < int (length data) \<Longrightarrow> find_rich data p = (Inr None, [])"
  by (simp add: find_rich.simps [of data p])

lemma find_rich_match:
  "p + 4 < int (length data) \<Longrightarrow> peek data p 4 = Some rich_header_signature \<Longrightarrow>
   find_rich data p = (Inr (Some p), [p])"
  by (simp add: find_rich.simps [of data p])

lemma find_rich_next:
  "p + 4 < int (length data) \<Longrightarrow> 0 \<le> p \<Longrightarrow> peek data p 4 \<noteq> Some rich_header_signature \<Longrightarrow>
   find_rich data p = (fst (find_rich data (p + 4)), p # snd (find_rich data (p + 4)))"
  by (simp add: find_rich.simps [of data p] peek_in_range case_prod_beta)

lemma find_rich_no_fault: "0 \<le> p \<Longrightarrow> \<exists>r. fst (find_rich data p) = Inr r"
proof (induction data p rule: find_rich.induct)
  case (1 data p)
  show ?case
  proof (cases "p + 4 < int (length data)")
    case False
    then show ?thesis by (simp add: find_rich_stop)
  next
    case True
    with "1.prems" have pk: "peek data p 4 = Some (take 4 (drop (nat p) data))"
      by (simp add: peek_in_range)
    show ?thesis
    proof (cases "take 4 (drop (nat p) data) = rich_header_signature")
      case True
      with \<open>p + 4 < int (length data)\<close> pk show ?thesis
        by (simp add: find_rich_match)
    next
      case False
      from "1.IH" [OF True pk False] "1.prems"
      obtain r where "fst (find_rich data (p + 4)) = Inr r" by auto
      with True pk False "1.prems" show ?thesis
        by (simp add: find_rich_next)
    qed
  qed
qed

lemma find_rich_hit:
  "0 \<le> p \<Longrightarrow> p + 4 * int k + 4 < int (length data) \<Longrightarrow>
   peek data (p + 4 * int k) 4 = Some rich_header_signature \<Longrightarrow>
   (\<forall>j<k. peek data (p + 4 * int j) 4 \<noteq> Some rich_header_signature) \<Longrightarrow>
   fst (find_rich data p) = Inr (Some (p + 4 * int k))"
proof (induction k arbitrary: p)
  case 0
  then show ?case by (simp add: find_rich_match)
next
  case (Suc k)
  have "0 < Suc k" by simp
  with Suc.prems(4) have "peek data (p + 4 * int 0) 4 \<noteq> Some rich_header_signature"
    by blast
  then have miss: "peek data p 4 \<noteq> Some rich_header_signature" by simp
  from Suc.prems have inr: "p + 4 < int (length data)" by simp
  have later: "\<forall>j<k. peek data (p + 4 + 4 * int j) 4 \<noteq> Some rich_header_signature"
  proof (intro allI impI)
    fix j assume "j < k"
    then have "Suc j < Suc k" by simp
    with Suc.prems(4) have "peek data (p + 4 * int (Suc j)) 4 \<noteq> Some rich_header_signature"
      by blast
    then show "peek data (p + 4 + 4 * int j) 4 \<noteq> Some rich_header_signature"
      by (simp add: algebra_simps)
  qed
  have e: "p + 4 + 4 * int k = p + 4 * int (Suc k)" by simp
  have "fst (find_rich data (p + 4)) = Inr (Some (p + 4 + 4 * int k))"
  proof (rule Suc.IH)
    show "0 \<le> p + 4" using Suc.prems(1) by simp
    show "p + 4 + 4 * int k + 4 < int (length data)" using Suc.prems(2) by simp
    show "peek data (p + 4 + 4 * int k) 4 = Some rich_header_signature"
      using Suc.prems(3) by (simp only: e)
    show "\<forall>j<k. peek data (p + 4 + 4 * int j) 4 \<noteq> Some rich_header_signature"
      by (rule later)
  qed
  moreover have "fst (find_rich data p) = fst (find_rich data (p + 4))"
    using find_rich_next [OF inr Suc.prems(1) miss] by simp
  ultimately show ?case by (simp only: e)
qed

lemma find_rich_found:
  "fst (find_rich data p) = Inr (Some q) \<Longrightarrow> 0 \<le> p \<Longrightarrow>
   \<exists>k. q = p + 4 * int k \<and> q + 4 < int (length data) \<and>
       peek data q 4 = Some rich_header_signature \<and>
       (\<forall>j<k. peek data (p + 4 * int j) 4 \<noteq> Some rich_header_signature)"
proof (induction data p rule: find_rich.induct)
  case (1 data p)
  from "1.prems" have inr: "p + 4 < int (length data)"
    by (auto simp: find_rich.simps [of data p] split: if_splits)
  with "1.prems" have pk: "peek data p 4 = Some (take 4 (drop (nat p) data))"
    by (simp add: peek_in_range)
  show ?case
  proof (cases "take 4 (drop (nat p) data) = rich_header_signature")
    case True
    with "1.prems" inr pk have "q = p" by (simp add: find_rich_match)
    with inr pk True have "q = p + 4 * int 0 \<and> q + 4 < int (length data) \<and>
       peek data q 4 = Some rich_header_signature \<and>
       (\<forall>j<0. peek data (p + 4 * int j) 4 \<noteq> Some rich_header_signature)" by simp
    then show ?thesis by blast
  next
    case False
    with "1.prems" inr pk have "fst (find_rich data (p + 4)) = Inr (Some q)"
      by (simp add: find_rich_next)
    from "1.IH" [OF inr pk False this] "1.prems"(2) obtain k where
      k: "q = p + 4 + 4 * int k" "q + 4 < int (length data)"
         "peek data q 4 = Some rich_header_signature"
         "\<forall>j<k. peek data (p + 4 + 4 * int j) 4 \<noteq> Some rich_header_signature"
      by auto
    have "\<forall>j<Suc k. peek data (p + 4 * int j) 4 \<noteq> Some rich_header_signature"
    proof (intro allI impI)
      fix j assume j: "j < Suc k"
      show "peek data (p + 4 * int j) 4 \<noteq> Some rich_header_signature"
      proof (cases j)
        case 0
        with pk False show ?thesis by simp
      next
        case (Suc i)
        with j k(4) have "peek data (p + 4 + 4 * int i) 4 \<noteq> Some rich_header_signature" by simp
        with Suc show ?thesis by (simp add: algebra_simps)
      qed
    qed
    with k(1-3) have "q = p + 4 * int (Suc k) \<and> q + 4 < int (length data) \<and>
       peek data q 4 = Some rich_header_signature \<and>
       (\<forall>j<Suc k. peek data (p + 4 * int j) 4 \<noteq> Some rich_header_signature)"
      by simp
    then show ?thesis by blast
  qed
qed

lemma find_rich_none:
  "fst (find_rich data p) = Inr None \<Longrightarrow> 0 \<le> p \<Longrightarrow>
   p + 4 * int k + 4 < int (length data) \<Longrightarrow>
   peek data (p + 4 * int k) 4 \<noteq> Some rich_header_signature"
proof (induction k arbitrary: p)
  case 0
  then show ?case by (auto simp: find_rich_match)
next
  case (Suc k)
  from Suc.prems have inr: "p + 4 < int (length data)" by simp
  have "peek data p 4 \<noteq> Some rich_header_signature"
    using Suc.prems(1) inr by (auto simp: find_rich_match)
  with Suc.prems(1,2) inr have "fst (find_rich data (p + 4)) = Inr None"
    by (simp add: find_rich_next)
  from Suc.IH [OF this] Suc.prems show ?case by (simp add: algebra_simps)
qed

lemma find_rich_reads:
  "a \<in> set (snd (find_rich data p)) \<Longrightarrow> p \<le> a \<and> a + 4 < int (length data)"
proof (induction data p rule: find_rich.induct)
  case (1 data p)
  then show ?case
    by (auto simp: find_rich.simps [of data p] split: if_splits option.splits prod.splits)
qed

lemma find_rich_reads_stride:
  "a \<in> set (snd (find_rich data p)) \<Longrightarrow> \<exists>k. a = p + 4 * int k"
proof (induction data p rule: find_rich.induct)
  case (1 data p)
  have here: "\<exists>k. p = p + 4 * int k" by (rule exI [of _ 0]) simp
  show ?case
  proof (cases "p + 4 < int (length data)")
    case False
    with "1.prems" show ?thesis by (simp add: find_rich_stop)
  next
    case True
    show ?thesis
    proof (cases "peek data p 4")
      case None
      with True "1.prems" have "a = p" by (simp add: find_rich.simps [of data p])
      with here show ?thesis by simp
    next
      case (Some w)
      show ?thesis
      proof (cases "w = rich_header_signature")
        case t: True
        with True Some "1.prems" have "a = p" by (simp add: find_rich.simps [of data p])
        with here show ?thesis by simp
      next
        case f: False
        with True Some "1.prems" have "a = p \<or> a \<in> set (snd (find_rich data (p + 4)))"
          by (auto simp: find_rich.simps [of data p] split: prod.splits)
        then show ?thesis
        proof
          assume "a = p"
          with here show ?thesis by simp
        next
          assume "a \<in> set (snd (find_rich data (p + 4)))"
          from "1.IH" [OF True Some f this] obtain k where "a = p + 4 + 4 * int k" ..
          then have "a = p + 4 * int (Suc k)" by simp
          then show ?thesis by (rule exI)
        qed
      qed
    qed
  qed
qed

section \<open>The backward loop\<close>

lemma load32_in_range:
  "0 \<le> a \<Longrightarrow> a + 4 \<le> int (length mem) \<Longrightarrow> \<exists>w. load32 mem a = Some w"
  by (simp add: load32_def peek_def)

lemma find_dans_stop: "p < 0 \<Longrightarrow> find_dans data rh p = (Inr (- 2), [])"
  by (simp add: find_dans.simps [of data rh p])

lemma find_dans_match:
  "0 \<le> p \<Longrightarrow> load32 data (rh + 4) = Some key \<Longrightarrow> dans_at data key p \<Longrightarrow>
   find_dans data rh p = (Inr (rh - p), [p, rh + 4])"
  by (auto simp: find_dans.simps [of data rh p] dans_at_def split: option.splits)

lemma find_dans_next:
  "0 \<le> p \<Longrightarrow> p + 4 \<le> int (length data) \<Longrightarrow> load32 data (rh + 4) = Some key \<Longrightarrow>
   \<not> dans_at data key p \<Longrightarrow>
   find_dans data rh p =
     (fst (find_dans data rh (p - 4)), p # (rh + 4) # snd (find_dans data rh (p - 4)))"
  using load32_in_range [of p data]
  by (auto simp: find_dans.simps [of data rh p] dans_at_def case_prod_beta split: option.splits)

lemma find_dans_no_key:
  "0 \<le> p \<Longrightarrow> p + 4 \<le> int (length data) \<Longrightarrow> load32 data (rh + 4) = None \<Longrightarrow>
   find_dans data rh p = (Inl (OutOfBounds (rh + 4)), [p, rh + 4])"
  using load32_in_range [of p data]
  by (auto simp: find_dans.simps [of data rh p] split: option.splits)

lemma find_dans_hit:
  "load32 data (rh + 4) = Some key \<Longrightarrow> p + 4 \<le> int (length data) \<Longrightarrow>
   0 \<le> p - 4 * int k \<Longrightarrow> dans_at data key (p - 4 * int k) \<Longrightarrow>
   (\<forall>j<k. \<not> dans_at data key (p - 4 * int j)) \<Longrightarrow>
   fst (find_dans data rh p) = Inr (rh - (p - 4 * int k))"
proof (induction k arbitrary: p)
  case 0
  then show ?case by (simp add: find_dans_match)
next
  case (Suc k)
  have "0 < Suc k" by simp
  with Suc.prems(5) have "\<not> dans_at data key (p - 4 * int 0)" by blast
  then have miss: "\<not> dans_at data key p" by simp
  from Suc.prems(3) have pos: "0 \<le> p" by simp
  have e: "p - 4 - 4 * int k = p - 4 * int (Suc k)" by simp
  have "fst (find_dans data rh (p - 4)) = Inr (rh - (p - 4 - 4 * int k))"
  proof (rule Suc.IH)
    show "load32 data (rh + 4) = Some key" by (rule Suc.prems(1))
    show "p - 4 + 4 \<le> int (length data)" using Suc.prems(2) by simp
    show "0 \<le> p - 4 - 4 * int k" using Suc.prems(3) by simp
    show "dans_at data key (p - 4 - 4 * int k)" using Suc.prems(4) by (simp only: e)
    show "\<forall>j<k. \<not> dans_at data key (p - 4 - 4 * int j)"
    proof (intro allI impI)
      fix j assume "j < k"
      then have "Suc j < Suc k" by simp
      with Suc.prems(5) have "\<not> dans_at data key (p - 4 * int (Suc j))" by blast
      then show "\<not> dans_at data key (p - 4 - 4 * int j)" by (simp add: algebra_simps)
    qed
  qed
  moreover have "fst (find_dans data rh p) = fst (find_dans data rh (p - 4))"
    using find_dans_next [OF pos Suc.prems(2) Suc.prems(1) miss] by simp
  ultimately show ?case by (simp only: e)
qed

lemma find_dans_miss:
  "load32 data (rh + 4) = Some key \<Longrightarrow> p + 4 \<le> int (length data) \<Longrightarrow>
   (\<forall>k. 0 \<le> p - 4 * int k \<longrightarrow> \<not> dans_at data key (p - 4 * int k)) \<Longrightarrow>
   fst (find_dans data rh p) = Inr (- 2)"
proof (induction "nat (p + 4)" arbitrary: p rule: less_induct)
  case less
  show ?case
  proof (cases "0 \<le> p")
    case False
    then show ?thesis by (simp add: find_dans_stop)
  next
    case True
    then have "0 \<le> p - 4 * int 0" by simp
    with less.prems(3) have "\<not> dans_at data key (p - 4 * int 0)" by blast
    then have miss: "\<not> dans_at data key p" by simp
    have "fst (find_dans data rh (p - 4)) = Inr (- 2)"
    proof (rule less.hyps)
      show "nat (p - 4 + 4) < nat (p + 4)" using True by simp
      show "load32 data (rh + 4) = Some key" by (rule less.prems(1))
      show "p - 4 + 4 \<le> int (length data)" using less.prems(2) by simp
      show "\<forall>k. 0 \<le> p - 4 - 4 * int k \<longrightarrow> \<not> dans_at data key (p - 4 - 4 * int k)"
      proof (intro allI impI)
        fix k assume "0 \<le> p - 4 - 4 * int k"
        then have "0 \<le> p - 4 * int (Suc k)" by simp
        with less.prems(3) have "\<not> dans_at data key (p - 4 * int (Suc k))" by blast
        then show "\<not> dans_at data key (p - 4 - 4 * int k)" by (simp add: algebra_simps)
      qed
    qed
    moreover have "fst (find_dans data rh p) = fst (find_dans data rh (p - 4))"
      using find_dans_next [OF True less.prems(2) less.prems(1) miss] by simp
    ultimately show ?thesis by simp
  qed
qed

lemma find_dans_reads:
  "a \<in> set (snd (find_dans data rh p)) \<Longrightarrow> a = rh + 4 \<or> (0 \<le> a \<and> a \<le> p)"
proof (induction data rh p rule: find_dans.induct)
  case (1 data rh p)
  show ?case
  proof (cases "0 \<le> p")
    case False
    with "1.prems" show ?thesis by (simp add: find_dans.simps [of data rh p])
  next
    case True
    note pos = this
    show ?thesis
    proof (cases "load32 data p")
      case None
      with True "1.prems" show ?thesis by (simp add: find_dans.simps [of data rh p])
    next
      case (Some w)
      note w = this
      show ?thesis
      proof (cases "load32 data (rh + 4)")
        case None
        with True w "1.prems" show ?thesis by (auto simp: find_dans.simps [of data rh p])
      next
        case (Some key)
        show ?thesis
        proof (cases "w XOR key = le_word rich_header_dans")
          case True
          with \<open>0 \<le> p\<close> w Some "1.prems" show ?thesis
            by (auto simp: find_dans.simps [of data rh p])
        next
          case False
          with pos w Some "1.prems"
          have "a = p \<or> a = rh + 4 \<or> a \<in> set (snd (find_dans data rh (p - 4)))"
            by (auto simp: find_dans.simps [of data rh p] split: prod.splits)
          with "1.IH" [OF pos w Some False] pos show ?thesis by auto
        qed
      qed
    qed
  qed
qed

section \<open>The call\<close>

lemma from_data_not_found:
  "fst (find_rich data 64) = Inr None \<Longrightarrow>
   rich_header_from_data data rhdr0 =
     \<lparr>ret = Inr (- 1), rhdr = rhdr0, reads = snd (find_rich data 64)\<rparr>"
  by (simp add: rich_header_from_data_def case_prod_beta)

lemma from_data_found:
  "fst (find_rich data 64) = Inr (Some q) \<Longrightarrow>
   rich_header_from_data data rhdr0 =
     \<lparr>ret = fst (find_dans data q q), rhdr = q,
      reads = snd (find_rich data 64) @ snd (find_dans data q q)\<rparr>"
  by (simp add: rich_header_from_data_def case_prod_beta)

lemma find_rich_cases:
  "fst (find_rich data 64) = Inr None \<or> (\<exists>q. fst (find_rich data 64) = Inr (Some q))"
proof -
  obtain r where "fst (find_rich data 64) = Inr r"
    using find_rich_no_fault [of 64 data] by auto
  then show ?thesis by (cases r) auto
qed

lemma find_dans_result:
  "fst (find_dans data rh p) = Inr n \<Longrightarrow>
   n = - 2 \<or>
   (\<exists>k key. n = rh - (p - 4 * int k) \<and> 0 \<le> p - 4 * int k \<and>
      load32 data (rh + 4) = Some key \<and> dans_at data key (p - 4 * int k) \<and>
      (\<forall>j<k. \<not> dans_at data key (p - 4 * int j)))"
proof (induction data rh p rule: find_dans.induct)
  case (1 data rh p)
  show ?case
  proof (cases "0 \<le> p")
    case False
    with "1.prems" show ?thesis by (simp add: find_dans_stop)
  next
    case True
    note pos = this
    from "1.prems" pos obtain w where w: "load32 data p = Some w"
      by (cases "load32 data p") (auto simp: find_dans.simps [of data rh p])
    from "1.prems" pos w obtain key where key: "load32 data (rh + 4) = Some key"
      by (cases "load32 data (rh + 4)") (auto simp: find_dans.simps [of data rh p])
    from w have inr: "p + 4 \<le> int (length data)"
      by (auto simp: load32_def peek_def split: if_splits)
    show ?thesis
    proof (cases "w XOR key = le_word rich_header_dans")
      case True
      with w have d: "dans_at data key p" by (simp add: dans_at_def)
      with "1.prems" pos key have "n = rh - p" by (simp add: find_dans_match)
      with pos key d have "n = rh - (p - 4 * int 0) \<and> 0 \<le> p - 4 * int 0 \<and>
        load32 data (rh + 4) = Some key \<and> dans_at data key (p - 4 * int 0) \<and>
        (\<forall>j<0. \<not> dans_at data key (p - 4 * int j))" by simp
      then show ?thesis by blast
    next
      case False
      with w have nd: "\<not> dans_at data key p" by (simp add: dans_at_def)
      from "1.prems" find_dans_next [OF pos inr key nd]
      have "fst (find_dans data rh (p - 4)) = Inr n" by simp
      from "1.IH" [OF pos w key False this] show ?thesis
      proof
        assume "n = - 2"
        then show ?thesis by simp
      next
        assume "\<exists>k key. n = rh - (p - 4 - 4 * int k) \<and> 0 \<le> p - 4 - 4 * int k \<and>
          load32 data (rh + 4) = Some key \<and> dans_at data key (p - 4 - 4 * int k) \<and>
          (\<forall>j<k. \<not> dans_at data key (p - 4 - 4 * int j))"
        then obtain k key' where k: "n = rh - (p - 4 - 4 * int k)" "0 \<le> p - 4 - 4 * int k"
          "load32 data (rh + 4) = Some key'" "dans_at data key' (p - 4 - 4 * int k)"
          "\<forall>j<k. \<not> dans_at data key' (p - 4 - 4 * int j)" by blast
        from k(3) key have kk: "key' = key" by simp
        have "\<forall>j<Suc k. \<not> dans_at data key (p - 4 * int j)"
        proof (intro allI impI)
          fix j assume j: "j < Suc k"
          show "\<not> dans_at data key (p - 4 * int j)"
          proof (cases j)
            case 0
            with nd show ?thesis by simp
          next
            case (Suc i)
            with j k(5) kk have "\<not> dans_at data key (p - 4 - 4 * int i)" by simp
            with Suc show ?thesis by (simp add: algebra_simps)
          qed
        qed
        with k(1,2,4) kk key have "n = rh - (p - 4 * int (Suc k)) \<and> 0 \<le> p - 4 * int (Suc k) \<and>
          load32 data (rh + 4) = Some key \<and> dans_at data key (p - 4 * int (Suc k)) \<and>
          (\<forall>j<Suc k. \<not> dans_at data key (p - 4 * int j))"
          by (simp add: algebra_simps)
        then show ?thesis by blast
      qed
    qed
  qed
qed

lemma find_dans_no_fault:
  "load32 data (rh + 4) = Some key \<Longrightarrow> p + 4 \<le> int (length data) \<Longrightarrow>
   \<exists>n. fst (find_dans data rh p) = Inr n"
proof (induction "nat (p + 4)" arbitrary: p rule: less_induct)
  case less
  show ?case
  proof (cases "0 \<le> p")
    case False
    then show ?thesis by (simp add: find_dans_stop)
  next
    case True
    show ?thesis
    proof (cases "dans_at data key p")
      case d: True
      show ?thesis by (simp add: find_dans_match [OF True less.prems(1) d])
    next
      case d: False
      have "\<exists>n. fst (find_dans data rh (p - 4)) = Inr n"
      proof (rule less.hyps)
        show "nat (p - 4 + 4) < nat (p + 4)" using True by simp
        show "load32 data (rh + 4) = Some key" by (rule less.prems(1))
        show "p - 4 + 4 \<le> int (length data)" using less.prems(2) by simp
      qed
      then show ?thesis by (simp add: find_dans_next [OF True less.prems(2) less.prems(1) d])
    qed
  qed
qed

lemma find_dans_not_minus_one: "fst (find_dans data q q) \<noteq> Inr (- 1)"
proof
  assume "fst (find_dans data q q) = Inr (- 1)"
  from find_dans_result [OF this] obtain k :: nat where "(- 1 :: int) = q - (q - 4 * int k)"
    by auto
  then have "4 * int k = - 1" by simp
  then show False by presburger
qed

lemma first_aligned_marker:
  assumes m: "64 \<le> m" "m mod 4 = 0" "m + 4 < int (length data)" "rich_at data m"
  shows "\<exists>q. fst (find_rich data 64) = Inr (Some q) \<and> 64 \<le> q \<and> q \<le> m \<and> q mod 4 = 0 \<and>
           rich_at data q \<and> (\<forall>a. 64 \<le> a \<and> a < q \<and> a mod 4 = 0 \<longrightarrow> \<not> rich_at data a)"
proof -
  define P where "P k = rich_at data (64 + 4 * int k)" for k
  from m(2) have "4 dvd (m - 64)" by presburger
  then obtain t where t: "m - 64 = 4 * t" by (rule dvdE)
  define k0 where "k0 = nat t"
  from t m(1) have mk: "m = 64 + 4 * int k0" unfolding k0_def by simp
  with m(4) have "P k0" by (simp add: P_def)
  define k where "k = (LEAST k. P k)"
  from \<open>P k0\<close> have Pk: "P k" unfolding k_def by (rule LeastI)
  from \<open>P k0\<close> have kle: "k \<le> k0" unfolding k_def by (rule Least_le)
  have least: "\<not> P j" if "j < k" for j
    using that not_less_Least unfolding k_def by blast
  let ?q = "64 + 4 * int k"
  from kle mk have qm: "?q \<le> m" by simp
  have "fst (find_rich data 64) = Inr (Some ?q)"
  proof (rule find_rich_hit)
    show "(0::int) \<le> 64" by simp
    show "?q + 4 < int (length data)" using qm m(3) by simp
    show "peek data ?q 4 = Some rich_header_signature" using Pk by (simp add: P_def rich_at_def)
    show "\<forall>j<k. peek data (64 + 4 * int j) 4 \<noteq> Some rich_header_signature"
      using least by (simp add: P_def rich_at_def)
  qed
  moreover have "\<forall>a. 64 \<le> a \<and> a < ?q \<and> a mod 4 = 0 \<longrightarrow> \<not> rich_at data a"
  proof (intro allI impI)
    fix a :: int assume a: "64 \<le> a \<and> a < ?q \<and> a mod 4 = 0"
    from a have "4 dvd (a - 64)" by presburger
    then obtain u where u: "a - 64 = 4 * u" by (rule dvdE)
    define j where "j = nat u"
    from u a have aj: "a = 64 + 4 * int j" unfolding j_def by simp
    with a have "j < k" by simp
    from least [OF this] aj show "\<not> rich_at data a" by (simp add: P_def)
  qed
  moreover have "?q mod 4 = 0" by presburger
  ultimately show ?thesis using qm Pk by (auto simp: P_def)
qed

lemma drop_agree_peek:
  assumes "length data = length data'" "drop c data = drop c data'" "int c \<le> a"
  shows "peek data a n = peek data' a n"
proof -
  from assms(3) have e: "nat a = c + (nat a - c)" by simp
  have "drop (nat a) data = drop (nat a - c) (drop c data)"
    by (subst e) (simp only: drop_drop add.commute)
  also have "\<dots> = drop (nat a - c) (drop c data')" by (simp add: assms(2))
  also have "\<dots> = drop (nat a) data'"
    by (subst (2) e) (simp only: drop_drop add.commute)
  finally show ?thesis by (simp add: peek_def assms(1))
qed

lemma find_rich_agree:
  "length data = length data' \<Longrightarrow> drop c data = drop c data' \<Longrightarrow> int c \<le> p \<Longrightarrow>
   find_rich data' p = find_rich data p"
proof (induction data p rule: find_rich.induct)
  case (1 data p)
  have pk: "peek data' p 4 = peek data p 4"
    using drop_agree_peek [OF "1.prems"] by simp
  show ?case
  proof (cases "p + 4 < int (length data)")
    case False
    with "1.prems"(1) show ?thesis by (simp add: find_rich_stop)
  next
    case True
    from "1.prems"(3) have pos: "0 \<le> p" by simp
    with True have pv: "peek data p 4 = Some (take 4 (drop (nat p) data))"
      by (simp add: peek_in_range)
    show ?thesis
    proof (cases "take 4 (drop (nat p) data) = rich_header_signature")
      case t: True
      with True pv pk "1.prems"(1) show ?thesis by (simp add: find_rich_match)
    next
      case f: False
      have "find_rich data' (p + 4) = find_rich data (p + 4)"
        using "1.IH" [OF True pv f "1.prems"(1,2)] "1.prems"(3) by simp
      moreover from f pv have "peek data p 4 \<noteq> Some rich_header_signature" by simp
      ultimately show ?thesis
        using True pos pk "1.prems"(1) by (simp add: find_rich_next)
    qed
  qed
qed

lemma find_dans_agree:
  assumes len: "length data = length data'" and agree: "drop c data = drop c data'"
  shows "fst (find_dans data rh p) = Inr n \<Longrightarrow> 0 \<le> n \<Longrightarrow> int c \<le> rh - n \<Longrightarrow> p \<le> rh \<Longrightarrow>
     find_dans data' rh p = find_dans data rh p"
proof (induction "nat (p + 4)" arbitrary: p rule: less_induct)
  case less
  note prems = less.prems
  from find_dans_result [OF prems(1)] prems(2) obtain k key where
    k: "n = rh - (p - 4 * int k)" "0 \<le> p - 4 * int k" "load32 data (rh + 4) = Some key"
       "dans_at data key (p - 4 * int k)"
    by auto
  from k(1) prems(3) have cp: "int c \<le> p" by simp
  from k(2) have pos: "0 \<le> p" by simp
  have ld: "load32 data' a = load32 data a" if "int c \<le> a" for a
    using drop_agree_peek [OF len agree that] by (simp add: load32_def)
  from cp prems(4) have key': "load32 data' (rh + 4) = Some key" by (simp add: ld k(3))
  from cp have w': "load32 data' p = load32 data p" by (simp add: ld)
  have da: "dans_at data' key p = dans_at data key p" by (simp add: dans_at_def w')
  from prems(1) pos obtain w where w: "load32 data p = Some w"
    by (cases "load32 data p") (auto simp: find_dans.simps [of data rh p])
  then have inr: "p + 4 \<le> int (length data)"
    by (auto simp: load32_def peek_def split: if_splits)
  show ?case
  proof (cases "dans_at data key p")
    case True
    with da pos key' k(3) show ?thesis by (simp add: find_dans_match)
  next
    case False
    with w have ne: "w XOR key \<noteq> le_word rich_header_dans" by (simp add: dans_at_def)
    from prems(1) find_dans_next [OF pos inr k(3) False]
    have r: "fst (find_dans data rh (p - 4)) = Inr n" by simp
    have "find_dans data' rh (p - 4) = find_dans data rh (p - 4)"
    proof (rule less.hyps)
      show "nat (p - 4 + 4) < nat (p + 4)" using pos by simp
      show "fst (find_dans data rh (p - 4)) = Inr n" by (rule r)
      show "0 \<le> n" by (rule prems(2))
      show "int c \<le> rh - n" by (rule prems(3))
      show "p - 4 \<le> rh" using prems(4) by simp
    qed
    moreover from inr len have inr': "p + 4 \<le> int (length data')" by simp
    moreover from False da have "\<not> dans_at data' key p" by simp
    note find_dans_next [OF pos inr' key' this]
    ultimately show ?thesis
      using find_dans_next [OF pos inr k(3) False] by simp
  qed
qed

section \<open>Words and bytes\<close>

declare unmask_loop.simps [simp del]

lemma length_bytes_of [simp]: "length (bytes_of n w) = n"
  by (induction n arbitrary: w) auto

lemma le_word_Nil [simp]: "le_word [] = 0"
  by (simp add: le_word_def)

lemma le_word_Cons: "le_word (b # bs) = ucast b OR push_bit 8 (le_word bs)"
  by (simp add: le_word_def)

lemma byte_step:
  "ucast (ucast (w :: 'a::len word) :: byte) OR push_bit 8 (take_bit m (drop_bit 8 w)) =
   take_bit (8 + m) w"
  by (rule bit_word_eqI) (auto simp: bit_simps)

lemma le_word_bytes_of: "le_word (bytes_of n w) = take_bit (8 * n) (w :: 'a::len word)"
proof (induction n arbitrary: w)
  case 0
  show ?case by simp
next
  case (Suc n)
  show ?case by (simp add: le_word_Cons Suc byte_step)
qed

lemma le32_bytes_of [simp]: "le_word (bytes_of 4 w) = (w :: u32)"
  by (simp add: le_word_bytes_of take_bit_word_eq_self)

lemma low_half:
  "(ucast (ucast (b0 :: byte) OR push_bit 8 (ucast (b1 :: byte) OR push_bit 8 (x :: u32))) :: u16) =
   ucast b0 OR push_bit 8 (ucast b1 OR push_bit 8 0)"
  by (rule bit_word_eqI) (auto simp: bit_simps dest: bit_imp_le_length)

lemma high_half:
  "(ucast (drop_bit 16 (ucast (b0 :: byte) OR push_bit 8 (ucast (b1 :: byte) OR
      push_bit 8 (ucast (b2 :: byte) OR push_bit 8 (ucast (b3 :: byte) OR push_bit 8 (0 :: u32)))))) :: u16) =
   ucast b2 OR push_bit 8 (ucast b3 OR push_bit 8 0)"
  by (rule bit_word_eqI) (auto simp: bit_simps dest: bit_imp_le_length)

lemma pack_low:
  "(ucast (ucast (b :: u16) OR push_bit 16 (ucast (p :: u16)) :: u32) :: u16) = b"
  by (rule bit_word_eqI) (auto simp: bit_simps dest: bit_imp_le_length)

lemma pack_high:
  "(ucast (drop_bit 16 (ucast (b :: u16) OR push_bit 16 (ucast (p :: u16)) :: u32)) :: u16) = p"
  by (rule bit_word_eqI) (auto simp: bit_simps dest: bit_imp_le_length)

lemma le16_low: "(ucast (le_word [b0, b1, b2, b3] :: u32) :: u16) = le_word [b0, b1]"
  unfolding le_word_def by (simp only: foldr.simps comp_apply id_apply low_half)

lemma le16_high:
  "(ucast (drop_bit 16 (le_word [b0, b1, b2, b3] :: u32)) :: u16) = le_word [b2, b3]"
  unfolding le_word_def by (simp only: foldr.simps comp_apply id_apply high_half)

lemma four_bytes:
  assumes "length bs = 4"
  obtains b0 b1 b2 b3 where "bs = [b0, b1, b2, b3]"
proof -
  from assms obtain b0 r0 where "bs = b0 # r0" "length r0 = 3" by (cases bs) auto
  moreover then obtain b1 r1 where "r0 = b1 # r1" "length r1 = 2" by (cases r0) auto
  moreover then obtain b2 r2 where "r1 = b2 # r2" "length r2 = 1" by (cases r1) auto
  moreover then obtain b3 where "r2 = [b3]" by (cases r2) auto
  ultimately show ?thesis using that by simp
qed

lemma load16_of_load32:
  assumes "load32 mem a = Some w"
  shows "load16 mem a = Some (ucast w)" and "load16 mem (a + 2) = Some (ucast (drop_bit 16 w))"
proof -
  from assms have r: "0 \<le> a" "a + 4 \<le> int (length mem)"
    by (auto simp: load32_def peek_def split: if_splits)
  define bs where "bs = take 4 (drop (nat a) mem)"
  from r have "length bs = 4" by (simp add: bs_def)
  then obtain b0 b1 b2 b3 where bs: "bs = [b0, b1, b2, b3]" by (rule four_bytes)
  from assms r have w: "w = le_word bs" by (simp add: load32_def peek_def bs_def)
  have "take 2 (drop (nat a) mem) = take 2 bs" by (simp add: bs_def)
  with bs have lo: "take 2 (drop (nat a) mem) = [b0, b1]" by simp
  from r have "nat (a + 2) = 2 + nat a" by simp
  then have "take 2 (drop (nat (a + 2)) mem) = take 2 (drop 2 bs)"
    by (simp add: bs_def drop_take add.commute)
  with bs have hi: "take 2 (drop (nat (a + 2)) mem) = [b2, b3]" by simp
  from r lo show "load16 mem a = Some (ucast w)"
    by (simp add: load16_def peek_def w bs le16_low)
  from r hi show "load16 mem (a + 2) = Some (ucast (drop_bit 16 w))"
    by (simp add: load16_def peek_def w bs le16_high)
qed

lemma Products_of_words:
  assumes "load32 mem (hdr + 16 + 8 * int i) = Some w0"
    and "load32 mem (hdr + 16 + 8 * int i + 4) = Some w1"
  shows "Products mem hdr i =
           Some \<lparr>BuildNumber = ucast w0, ProductID = ucast (drop_bit 16 w0), ObjectCount = w1\<rparr>"
  using load16_of_load32 [OF assms(1)] assms(2) by (simp add: Products_def)

lemma products_len_eq:
  "16 \<le> s \<Longrightarrow> s < 2 ^ 64 \<Longrightarrow> rich_header_products_len s = (s - 16) div 8"
proof -
  assume a: "16 \<le> s" "s < 2 ^ 64"
  then have e: "s + 2 ^ 64 - 16 = (s - 16) + 2 ^ 64" by simp
  have "(s - 16 + 2 ^ 64) mod 2 ^ 64 = (s - 16) mod 2 ^ 64" by (rule mod_add_self2)
  also from a have "\<dots> = s - 16" by simp
  finally show ?thesis by (simp only: rich_header_products_len_def e)
qed

section \<open>Stores\<close>

lemma store32_length: "store32 mem a w = Some mem' \<Longrightarrow> length mem' = length mem"
  by (auto simp: store32_def split: if_splits)

lemma store32_in_range:
  "0 \<le> a \<Longrightarrow> a + 4 \<le> int (length mem) \<Longrightarrow> \<exists>mem'. store32 mem a w = Some mem'"
  by (simp add: store32_def)

lemma load32_store32_same: "store32 mem a w = Some mem' \<Longrightarrow> load32 mem' a = Some w"
  by (auto simp: store32_def load32_def peek_def split: if_splits)

lemma nth_store32_other:
  "store32 mem a w = Some mem' \<Longrightarrow> k < length mem \<Longrightarrow> int k < a \<or> a + 4 \<le> int k \<Longrightarrow>
   mem' ! k = mem ! k"
  by (auto simp: store32_def nth_append split: if_splits)

lemma peek_cong:
  assumes "length m1 = length m2"
    and "\<And>k. nat a \<le> k \<Longrightarrow> k < nat a + n \<Longrightarrow> k < length m1 \<Longrightarrow> m1 ! k = m2 ! k"
  shows "peek m1 a n = peek m2 a n"
proof (cases "0 \<le> a \<and> a + int n \<le> int (length m1)")
  case False
  with assms(1) show ?thesis by (auto simp: peek_def)
next
  case True
  have "take n (drop (nat a) m1) = take n (drop (nat a) m2)"
  proof (rule nth_equalityI)
    show "length (take n (drop (nat a) m1)) = length (take n (drop (nat a) m2))"
      by (simp add: assms(1))
  next
    fix i assume "i < length (take n (drop (nat a) m1))"
    then have i: "i < n" "nat a + i < length m1" by auto
    with assms(2) [of "nat a + i"] assms(1)
    show "take n (drop (nat a) m1) ! i = take n (drop (nat a) m2) ! i" by simp
  qed
  with True assms(1) show ?thesis by (simp add: peek_def)
qed

lemma load32_store32_other:
  assumes "store32 mem a w = Some mem'" and "b + 4 \<le> a \<or> a + 4 \<le> b"
  shows "load32 mem' b = load32 mem b"
proof (cases "0 \<le> b")
  case False
  then show ?thesis by (simp add: load32_def peek_def)
next
  case True
  have "peek mem' b 4 = peek mem b 4"
  proof (rule peek_cong)
    show "length mem' = length mem" by (rule store32_length [OF assms(1)])
  next
    fix k assume k: "nat b \<le> k" "k < nat b + 4" "k < length mem'"
    from k True assms(2) have "int k < a \<or> a + 4 \<le> int k" by auto
    with k(3) store32_length [OF assms(1)] show "mem' ! k = mem ! k"
      by (intro nth_store32_other [OF assms(1)]) simp_all
  qed
  then show ?thesis by (simp add: load32_def)
qed

lemma load32_frame:
  assumes "length m1 = length m2"
    and "\<And>k. k < length m1 \<Longrightarrow> int k < lo \<or> hi \<le> int k \<Longrightarrow> m1 ! k = m2 ! k"
    and "b + 4 \<le> lo \<or> hi \<le> b"
  shows "load32 m1 b = load32 m2 b"
proof (cases "0 \<le> b")
  case False
  then show ?thesis by (simp add: load32_def peek_def)
next
  case True
  have "peek m1 b 4 = peek m2 b 4"
  proof (rule peek_cong [OF assms(1)])
    fix k assume k: "nat b \<le> k" "k < nat b + 4" "k < length m1"
    from k True assms(3) have "int k < lo \<or> hi \<le> int k" by auto
    with k(3) show "m1 ! k = m2 ! k" by (rule assms(2))
  qed
  then show ?thesis by (simp add: load32_def)
qed

section \<open>The loop of rich\_header\_unmask\<close>

text \<open>The loop from round \<open>i\<close> on.\<close>

lemma unmask_loop_correct:
  assumes src: "0 \<le> rh - int sz" and tail: "rh + 8 \<le> int (length mem)"
    and key: "load32 mem (rh + 4) = Some key"
    and dst: "0 \<le> dst" "dst + 4 * int (sz div 4) \<le> int (length mem)"
    and ov: "dst = rh - int sz \<or> dst + 4 * int (sz div 4) \<le> rh - int sz \<or> rh + 8 \<le> dst"
    and i: "i \<le> sz div 4"
  shows "\<exists>mem'. unmask_loop mem rh sz dst i = Inr mem' \<and> length mem' = length mem \<and>
           (\<forall>j. i \<le> j \<and> j < sz div 4 \<longrightarrow>
                load32 mem' (dst + 4 * int j) =
                  map_option (\<lambda>w. w XOR key) (load32 mem (rh - int sz + 4 * int j))) \<and>
           (\<forall>k < length mem. int k < dst + 4 * int i \<or> dst + 4 * int (sz div 4) \<le> int k \<longrightarrow>
                mem' ! k = mem ! k)"
  using tail key dst(2) i
proof (induction "sz div 4 - i" arbitrary: mem i)
  case 0
  then have "\<not> i < sz div 4" by simp
  then have "unmask_loop mem rh sz dst i = Inr mem"
    by (simp add: unmask_loop.simps [of mem rh sz dst i])
  with \<open>\<not> i < sz div 4\<close> show ?case by auto
next
  case (Suc d)
  let ?n = "sz div 4"
  let ?src = "rh - int sz"
  from Suc.hyps(2) have lt: "i < ?n" by simp
  have n4: "4 * int ?n \<le> int sz" by simp
  with lt have srci: "?src + 4 * int i + 4 \<le> rh" by simp
  with src Suc.prems(1) obtain w where w: "load32 mem (?src + 4 * int i) = Some w"
    using load32_in_range [of "?src + 4 * int i" mem] by auto
  from lt dst(1) Suc.prems(3) obtain m1 where
    m1: "store32 mem (dst + 4 * int i) (w XOR key) = Some m1"
    using store32_in_range [of "dst + 4 * int i" mem "w XOR key"] by auto
  have len1: "length m1 = length mem" by (rule store32_length [OF m1])
  have step: "unmask_loop mem rh sz dst i = unmask_loop m1 rh sz dst (i + 1)"
    using lt w Suc.prems(2) m1 by (simp add: unmask_loop.simps [of mem rh sz dst i])
  have key1: "load32 m1 (rh + 4) = Some key"
  proof -
    from ov lt n4 have "rh + 4 + 4 \<le> dst + 4 * int i \<or> dst + 4 * int i + 4 \<le> rh + 4"
      by auto
    from load32_store32_other [OF m1 this] Suc.prems(2) show ?thesis by simp
  qed
  have "\<exists>mem'. unmask_loop m1 rh sz dst (i + 1) = Inr mem' \<and> length mem' = length m1 \<and>
           (\<forall>j. i + 1 \<le> j \<and> j < sz div 4 \<longrightarrow>
                load32 mem' (dst + 4 * int j) =
                  map_option (\<lambda>w. w XOR key) (load32 m1 (rh - int sz + 4 * int j))) \<and>
           (\<forall>k < length m1. int k < dst + 4 * int (i + 1) \<or> dst + 4 * int (sz div 4) \<le> int k \<longrightarrow>
                mem' ! k = m1 ! k)"
  proof (rule Suc.hyps(1))
    show "d = sz div 4 - (i + 1)" using Suc.hyps(2) by simp
    show "rh + 8 \<le> int (length m1)" using Suc.prems(1) len1 by simp
    show "load32 m1 (rh + 4) = Some key" by (rule key1)
    show "dst + 4 * int (sz div 4) \<le> int (length m1)" using Suc.prems(3) len1 by simp
    show "i + 1 \<le> sz div 4" using lt by simp
  qed
  then obtain mem' where r: "unmask_loop m1 rh sz dst (i + 1) = Inr mem'"
    and len': "length mem' = length m1"
    and out: "\<forall>j. i + 1 \<le> j \<and> j < sz div 4 \<longrightarrow>
                load32 mem' (dst + 4 * int j) =
                  map_option (\<lambda>w. w XOR key) (load32 m1 (rh - int sz + 4 * int j))"
    and frame: "\<forall>k < length m1. int k < dst + 4 * int (i + 1) \<or> dst + 4 * int (sz div 4) \<le> int k \<longrightarrow>
                mem' ! k = m1 ! k"
    by (elim exE conjE)
  have out': "\<forall>j. i \<le> j \<and> j < sz div 4 \<longrightarrow>
                load32 mem' (dst + 4 * int j) =
                  map_option (\<lambda>w. w XOR key) (load32 mem (rh - int sz + 4 * int j))"
  proof (intro allI impI)
    fix j assume j: "i \<le> j \<and> j < sz div 4"
    show "load32 mem' (dst + 4 * int j) =
            map_option (\<lambda>w. w XOR key) (load32 mem (rh - int sz + 4 * int j))"
    proof (cases "j = i")
      case True
      have "load32 mem' (dst + 4 * int i) = load32 m1 (dst + 4 * int i)"
      proof (rule load32_frame [OF len'])
        fix k assume "k < length mem'"
          and "int k < dst + 4 * int (i + 1) \<or> dst + 4 * int (sz div 4) \<le> int k"
        with frame len' show "mem' ! k = m1 ! k" by auto
      next
        show "dst + 4 * int i + 4 \<le> dst + 4 * int (i + 1) \<or>
              dst + 4 * int (sz div 4) \<le> dst + 4 * int i" by simp
      qed
      also have "\<dots> = Some (w XOR key)" by (rule load32_store32_same [OF m1])
      finally show ?thesis using True w by simp
    next
      case False
      with j have j1: "i + 1 \<le> j \<and> j < sz div 4" by simp
      with out have "load32 mem' (dst + 4 * int j) =
                  map_option (\<lambda>w. w XOR key) (load32 m1 (rh - int sz + 4 * int j))" by blast
      moreover have "load32 m1 (?src + 4 * int j) = load32 mem (?src + 4 * int j)"
      proof (rule load32_store32_other [OF m1])
        from ov j1 n4 lt
        show "?src + 4 * int j + 4 \<le> dst + 4 * int i \<or> dst + 4 * int i + 4 \<le> ?src + 4 * int j"
          by auto
      qed
      ultimately show ?thesis by simp
    qed
  qed
  have frame': "\<forall>k < length mem. int k < dst + 4 * int i \<or> dst + 4 * int (sz div 4) \<le> int k \<longrightarrow>
                mem' ! k = mem ! k"
  proof (intro allI impI)
    fix k assume k: "k < length mem"
      and o: "int k < dst + 4 * int i \<or> dst + 4 * int (sz div 4) \<le> int k"
    from o have "int k < dst + 4 * int (i + 1) \<or> dst + 4 * int (sz div 4) \<le> int k" by auto
    with frame k len1 have "mem' ! k = m1 ! k" by auto
    also have "m1 ! k = mem ! k"
    proof (rule nth_store32_other [OF m1 k])
      from o lt show "int k < dst + 4 * int i \<or> dst + 4 * int i + 4 \<le> int k" by auto
    qed
    finally show "mem' ! k = mem ! k" .
  qed
  from r step len' len1 have a: "unmask_loop mem rh sz dst i = Inr mem'" "length mem' = length mem"
    by simp_all
  show ?case by (rule exI [of _ mem'], intro conjI a out' frame')
qed

lemma unmask_words:
  assumes span: "0 \<le> rh - int sz" "rh + 8 \<le> int (length mem)"
    and sz: "sz mod 4 = 0"
    and key: "load32 mem (rh + 4) = Some key"
    and dst: "0 \<le> dst" "dst + int sz \<le> int (length mem)"
    and ov: "dst = rh - int sz \<or> dst + int sz \<le> rh - int sz \<or> rh + 8 \<le> dst"
  shows "\<exists>mem'. rich_header_unmask mem rh sz dst = Inr mem' \<and> length mem' = length mem \<and>
           (\<forall>i < sz div 4. \<exists>w. load32 mem (rh - int sz + 4 * int i) = Some w \<and>
                load32 mem' (dst + 4 * int i) = Some (w XOR key)) \<and>
           (\<forall>k < length mem. int k < dst \<or> dst + int sz \<le> int k \<longrightarrow> mem' ! k = mem ! k)"
proof -
  from sz have n4: "4 * (sz div 4) = sz" by presburger
  then have n4i: "4 * int (sz div 4) = int sz" by presburger
  have "\<exists>mem'. unmask_loop mem rh sz dst 0 = Inr mem' \<and> length mem' = length mem \<and>
           (\<forall>j. 0 \<le> j \<and> j < sz div 4 \<longrightarrow>
                load32 mem' (dst + 4 * int j) =
                  map_option (\<lambda>w. w XOR key) (load32 mem (rh - int sz + 4 * int j))) \<and>
           (\<forall>k < length mem. int k < dst + 4 * int 0 \<or> dst + 4 * int (sz div 4) \<le> int k \<longrightarrow>
                mem' ! k = mem ! k)"
    using span key dst ov by (intro unmask_loop_correct) (simp_all add: n4i)
  then obtain mem' where run: "unmask_loop mem rh sz dst 0 = Inr mem'"
    and len: "length mem' = length mem"
    and out: "\<forall>j. 0 \<le> j \<and> j < sz div 4 \<longrightarrow>
                load32 mem' (dst + 4 * int j) =
                  map_option (\<lambda>w. w XOR key) (load32 mem (rh - int sz + 4 * int j))"
    and frame: "\<forall>k < length mem. int k < dst + 4 * int 0 \<or> dst + 4 * int (sz div 4) \<le> int k \<longrightarrow>
                mem' ! k = mem ! k"
    by (elim exE conjE)
  have words: "\<exists>w. load32 mem (rh - int sz + 4 * int i) = Some w \<and>
                load32 mem' (dst + 4 * int i) = Some (w XOR key)" if "i < sz div 4" for i
  proof -
    from that n4 have "4 * int i + 4 \<le> int sz" by simp
    with span obtain w where w: "load32 mem (rh - int sz + 4 * int i) = Some w"
      using load32_in_range [of "rh - int sz + 4 * int i" mem] by auto
    with out that show ?thesis by simp
  qed
  have h3: "\<forall>i < sz div 4. \<exists>w. load32 mem (rh - int sz + 4 * int i) = Some w \<and>
                load32 mem' (dst + 4 * int i) = Some (w XOR key)"
    using words by blast
  have h4: "\<forall>k < length mem. int k < dst \<or> dst + int sz \<le> int k \<longrightarrow> mem' ! k = mem ! k"
    using frame by (simp add: n4i)
  from run have h1: "rich_header_unmask mem rh sz dst = Inr mem'"
    by (simp add: rich_header_unmask_def)
  show ?thesis by (rule exI [of _ mem'], intro conjI h1 len h3 h4)
qed

text \<open>The entry \<open>j\<close> of the output, from its words \<open>4 + 2 * j\<close> and \<open>5 + 2 * j\<close>.\<close>

lemma Products_of_output:
  assumes "load32 mem' (dst + 4 * int (4 + 2 * j)) = Some w0"
    and "load32 mem' (dst + 4 * int (4 + 2 * j + 1)) = Some w1"
  shows "Products mem' dst j =
           Some \<lparr>BuildNumber = ucast w0, ProductID = ucast (drop_bit 16 w0), ObjectCount = w1\<rparr>"
proof -
  have f0: "dst + 4 * int (4 + 2 * j) = dst + 16 + 8 * int j"
    and f1: "dst + 4 * int (4 + 2 * j + 1) = dst + 16 + 8 * int j + 4"
    by simp_all
  from assms(1) have b0: "load32 mem' (dst + 16 + 8 * int j) = Some w0" by (simp only: f0)
  from assms(2) have b1: "load32 mem' (dst + 16 + 8 * int j + 4) = Some w1" by (simp only: f1)
  from b0 b1 show ?thesis by (rule Products_of_words)
qed

section \<open>The assembled file\<close>

lemma peek_append_at:
  "length bs = n \<Longrightarrow> peek (pre @ bs @ post) (int (length pre)) n = Some bs"
  by (simp add: peek_def)

lemma load32_append_at:
  "length bs = 4 \<Longrightarrow> load32 (pre @ bs @ post) (int (length pre)) = Some (le_word bs)"
  by (simp add: load32_def peek_append_at)

lemma length_concat_bytes:
  "length (concat (map (\<lambda>w. bytes_of 4 (f w)) ws)) = 4 * length ws"
  by (induction ws) simp_all

lemma load32_concat_words:
  "i < length ws \<Longrightarrow>
   load32 (pre @ concat (map (\<lambda>w. bytes_of 4 (f w)) ws) @ post) (int (length pre) + 4 * int i) =
     Some (f (ws ! i) :: u32)"
proof (induction ws arbitrary: pre i)
  case Nil
  then show ?case by simp
next
  case (Cons w ws)
  show ?case
  proof (cases i)
    case 0
    have "load32 (pre @ bytes_of 4 (f w) @ (concat (map (\<lambda>w. bytes_of 4 (f w)) ws) @ post))
            (int (length pre)) = Some (le_word (bytes_of 4 (f w)))"
      by (rule load32_append_at) simp
    with 0 show ?thesis by simp
  next
    case (Suc i')
    with Cons.prems have i': "i' < length ws" by simp
    have a: "int (length pre) + 4 * int i = int (length (pre @ bytes_of 4 (f w))) + 4 * int i'"
      using Suc by simp
    have l: "pre @ concat (map (\<lambda>w. bytes_of 4 (f w)) (w # ws)) @ post =
             (pre @ bytes_of 4 (f w)) @ concat (map (\<lambda>w. bytes_of 4 (f w)) ws) @ post"
      by simp
    have n: "(w # ws) ! i = ws ! i'" using Suc by simp
    show ?thesis unfolding a l n using i' by (rule Cons.IH)
  qed
qed

lemma length_product_words: "length (concat (map product_words prods)) = 2 * length prods"
  by (induction prods) (simp_all add: product_words_def)

lemma length_header_words: "length (header_words prods) = 4 + 2 * length prods"
  by (simp add: header_words_def length_product_words)

lemma nth_product_words:
  "j < length prods \<Longrightarrow>
   concat (map product_words prods) ! (2 * j) =
     ucast (BuildNumber (prods ! j)) OR push_bit 16 (ucast (ProductID (prods ! j))) \<and>
   concat (map product_words prods) ! (2 * j + 1) = ObjectCount (prods ! j)"
proof (induction prods arbitrary: j)
  case Nil
  then show ?case by simp
next
  case (Cons e prods)
  show ?case
  proof (cases j)
    case 0
    then show ?thesis by (simp add: product_words_def)
  next
    case (Suc j')
    with Cons.prems have "j' < length prods" by simp
    from Cons.IH [OF this] Suc show ?thesis by (simp add: product_words_def)
  qed
qed

lemma length_assemble:
  "length (assemble pad key prods) = length pad + 16 + 8 * length prods + 8"
  by (simp add: assemble_def length_concat_bytes length_header_words rich_header_signature_def)

lemma load32_assemble:
  "i < 4 + 2 * length prods \<Longrightarrow>
   load32 (assemble pad key prods @ out) (int (length pad) + 4 * int i) =
     Some (header_words prods ! i XOR key)"
  unfolding assemble_def append_assoc
  by (rule load32_concat_words) (simp add: length_header_words)

lemma rich_at_assemble:
  "rich_at (assemble pad key prods) (int (length pad) + 16 + 8 * int (length prods))"
proof -
  let ?m = "concat (map (\<lambda>w. bytes_of 4 (w XOR key)) (header_words prods))"
  have a: "int (length pad) + 16 + 8 * int (length prods) = int (length (pad @ ?m))"
    by (simp add: length_concat_bytes length_header_words)
  have l: "assemble pad key prods = (pad @ ?m) @ rich_header_signature @ bytes_of 4 key"
    by (simp add: assemble_def)
  have "peek ((pad @ ?m) @ rich_header_signature @ bytes_of 4 key)
                   (int (length (pad @ ?m))) 4 = Some rich_header_signature"
    by (rule peek_append_at) (simp add: rich_header_signature_def)
  then show ?thesis unfolding rich_at_def a l .
qed

lemma key_assemble:
  "load32 (assemble pad key prods @ out) (int (length pad) + 16 + 8 * int (length prods) + 4) =
     Some key"
proof -
  let ?m = "concat (map (\<lambda>w. bytes_of 4 (w XOR key)) (header_words prods))"
  have a: "int (length pad) + 16 + 8 * int (length prods) + 4 =
        int (length (pad @ ?m @ rich_header_signature))"
    by (simp add: length_concat_bytes length_header_words rich_header_signature_def)
  have l: "assemble pad key prods @ out = (pad @ ?m @ rich_header_signature) @ bytes_of 4 key @ out"
    by (simp add: assemble_def)
  have "load32 ((pad @ ?m @ rich_header_signature) @ bytes_of 4 key @ out)
                   (int (length (pad @ ?m @ rich_header_signature))) = Some (le_word (bytes_of 4 key))"
    by (rule load32_append_at) simp
  then show ?thesis unfolding a l by simp
qed

lemma rich_word_assemble:
  "load32 (assemble pad key prods) (int (length pad) + 16 + 8 * int (length prods)) =
     Some (le_word rich_header_signature)"
  using rich_at_assemble [of pad key prods] by (simp add: rich_at_def load32_def)

lemma dans_word_nonzero: "(le_word rich_header_dans :: u32) \<noteq> 0"
  by (simp add: rich_header_dans_def le_word_def)

lemma header_word_not_dans:
  assumes nd: "\<forall>e \<in> set prods. le_word rich_header_dans \<notin> set (product_words e)"
    and i: "0 < i" "i < 4 + 2 * length prods"
  shows "header_words prods ! i \<noteq> le_word rich_header_dans"
proof (cases "i < 4")
  case True
  with i(1) have "i = 1 \<or> i = 2 \<or> i = 3" by auto
  then have "header_words prods ! i = 0" by (auto simp: header_words_def)
  with dans_word_nonzero show ?thesis by simp
next
  case False
  then obtain t where t: "i = 4 + t" using le_Suc_ex [of 4 i] by auto
  with i(2) have tl: "t < length (concat (map product_words prods))"
    by (simp add: length_product_words)
  have "header_words prods ! i = concat (map product_words prods) ! t"
    by (simp add: header_words_def t)
  also from tl have "\<dots> \<in> set (concat (map product_words prods))" by (rule nth_mem)
  finally obtain e where "e \<in> set prods" "header_words prods ! i \<in> set (product_words e)"
    by auto
  with nd show ?thesis by auto
qed

lemma assemble_locate:
  assumes pad: "64 \<le> length pad" "length pad mod 4 = 0"
    and first: "\<forall>a. 64 \<le> a \<and> a < int (length pad) + 16 + 8 * int (length prods) \<and> a mod 4 = 0 \<longrightarrow>
                  \<not> rich_at (assemble pad key prods) a"
    and k: "key \<noteq> le_word rich_header_signature XOR le_word rich_header_dans"
    and nd: "\<forall>e \<in> set prods. le_word rich_header_dans \<notin> set (product_words e)"
  shows "fst (find_rich (assemble pad key prods) 64) =
           Inr (Some (int (length pad) + 16 + 8 * int (length prods)))"
    and "fst (find_dans (assemble pad key prods)
           (int (length pad) + 16 + 8 * int (length prods))
           (int (length pad) + 16 + 8 * int (length prods))) =
           Inr (16 + 8 * int (length prods))"
proof -
  let ?B = "assemble pad key prods"
  let ?P = "int (length pad)"
  let ?R = "?P + 16 + 8 * int (length prods)"
  let ?L = "4 + 2 * length prods"
  have len: "int (length ?B) = ?R + 8" by (simp add: length_assemble)
  have r64: "64 \<le> ?R" using pad(1) by simp
  have r4: "?R mod 4 = 0" using pad(2) by presburger
  have rin: "?R + 4 < int (length ?B)" by (simp add: len)
  have rr: "rich_at ?B ?R" by (rule rich_at_assemble)
  from first_aligned_marker [OF r64 r4 rin rr] obtain q where
    q: "fst (find_rich ?B 64) = Inr (Some q) \<and> 64 \<le> q \<and> q \<le> ?R \<and> q mod 4 = 0 \<and>
        rich_at ?B q \<and> (\<forall>a. 64 \<le> a \<and> a < q \<and> a mod 4 = 0 \<longrightarrow> \<not> rich_at ?B a)" ..
  then have q1: "fst (find_rich ?B 64) = Inr (Some q)" and q2: "64 \<le> q" "q \<le> ?R" "q mod 4 = 0"
    and q3: "rich_at ?B q" by simp_all
  have "q = ?R"
  proof (rule ccontr)
    assume "q \<noteq> ?R"
    with q2 have "64 \<le> q \<and> q < ?R \<and> q mod 4 = 0" by simp
    moreover from first have "64 \<le> q \<and> q < ?R \<and> q mod 4 = 0 \<longrightarrow> \<not> rich_at ?B q"
      by (rule spec)
    ultimately have "\<not> rich_at ?B q" by (rule rev_mp)
    with q3 show False by simp
  qed
  with q1 show "fst (find_rich ?B 64) = Inr (Some ?R)" by simp
  have key: "load32 ?B (?R + 4) = Some key"
    using key_assemble [of pad key prods "[]"] by simp
  have word: "load32 ?B (?P + 4 * int i) = Some (header_words prods ! i XOR key)" if "i < ?L" for i
    using load32_assemble [OF that, of pad key "[]"] by simp
  have rl: "?R - 4 * int ?L = ?P" by simp
  have "fst (find_dans ?B ?R ?R) = Inr (?R - (?R - 4 * int ?L))"
  proof (rule find_dans_hit [OF key])
    show "?R + 4 \<le> int (length ?B)" by (simp add: len)
    show "0 \<le> ?R - 4 * int ?L" by (simp only: rl)
    have "load32 ?B (?P + 4 * int 0) = Some (header_words prods ! 0 XOR key)"
      by (rule word) simp
    then have "load32 ?B ?P = Some (le_word rich_header_dans XOR key)"
      by (simp add: header_words_def)
    then have "dans_at ?B key ?P" by (simp add: dans_at_def xor.assoc)
    then show "dans_at ?B key (?R - 4 * int ?L)" by (simp only: rl)
    show "\<forall>j < ?L. \<not> dans_at ?B key (?R - 4 * int j)"
    proof (intro allI impI)
      fix j assume j: "j < ?L"
      show "\<not> dans_at ?B key (?R - 4 * int j)"
      proof (cases j)
        case 0
        have "load32 ?B ?R = Some (le_word rich_header_signature)" by (rule rich_word_assemble)
        moreover have "le_word rich_header_signature XOR key \<noteq> le_word rich_header_dans"
        proof
          assume e: "le_word rich_header_signature XOR key = le_word rich_header_dans"
          have "key = le_word rich_header_signature XOR (le_word rich_header_signature XOR key)"
            by (simp add: xor.assoc [symmetric])
          with e k show False by simp
        qed
        ultimately show ?thesis using 0 by (simp add: dans_at_def)
      next
        case (Suc j')
        define i where "i = ?L - j"
        from j Suc have i: "0 < i" "i < ?L" by (simp_all add: i_def)
        from j have a: "?R - 4 * int j = ?P + 4 * int i" by (simp add: i_def)
        from word [OF i(2)] have "load32 ?B (?P + 4 * int i) = Some (header_words prods ! i XOR key)" .
        moreover have "header_words prods ! i \<noteq> le_word rich_header_dans"
          using nd i by (rule header_word_not_dans)
        ultimately show ?thesis unfolding a by (simp add: dans_at_def xor.assoc)
      qed
    qed
  qed
  then show "fst (find_dans ?B ?R ?R) = Inr (16 + 8 * int (length prods))" by simp
qed

section \<open>The table of names\<close>

lemma product_keys: "map fst product_names = map of_nat [0..<271]"
  by code_simp

lemma product_names_nonempty: "list_all (\<lambda>(k, s). s \<noteq> []) product_names"
  by code_simp

lemma known_product: "product_id \<in> set (map fst product_names) \<longleftrightarrow> product_id \<le> 0x010e"
proof
  assume "product_id \<in> set (map fst product_names)"
  then obtain n where n: "n < 271" "product_id = of_nat n" by (auto simp: product_keys)
  then have "unat product_id = n" by (simp add: unat_of_nat)
  with n(1) show "product_id \<le> 0x010e" by (simp add: word_le_nat_alt)
next
  assume "product_id \<le> 0x010e"
  then have "unat product_id < 271" by (simp add: word_le_nat_alt)
  moreover have "product_id = of_nat (unat product_id)" by simp
  ultimately have "product_id \<in> of_nat ` {0..<271}" by (metis atLeastLessThan_iff imageI zero_le)
  then show "product_id \<in> set (map fst product_names)" by (simp add: product_keys)
qed

lemma cstr_known:
  assumes "product_id \<le> 0x010e"
  shows "(product_id, rich_header_productid_to_cstr product_id) \<in> set product_names"
    and "rich_header_productid_to_cstr product_id \<noteq> ''''"
proof -
  from assms have "product_id \<in> fst ` set product_names" using known_product by simp
  then have "map_of product_names product_id \<noteq> None" by (simp add: map_of_eq_None_iff)
  then obtain name where name: "map_of product_names product_id = Some name" by blast
  then have c: "rich_header_productid_to_cstr product_id = name"
    by (simp add: rich_header_productid_to_cstr_def)
  from name have m: "(product_id, name) \<in> set product_names" by (rule map_of_SomeD)
  with c show "(product_id, rich_header_productid_to_cstr product_id) \<in> set product_names"
    by simp
  from product_names_nonempty m have "name \<noteq> []" by (auto simp: list_all_iff)
  with c show "rich_header_productid_to_cstr product_id \<noteq> ''''" by simp
qed

lemma cstr_unknown:
  assumes "0x010e < product_id"
  shows "rich_header_productid_to_cstr product_id = ''''"
proof -
  from assms have "\<not> product_id \<le> 0x010e" by simp
  then have "product_id \<notin> fst ` set product_names" using known_product by simp
  then have "map_of product_names product_id = None" by (simp add: map_of_eq_None_iff)
  then show ?thesis by (simp add: rich_header_productid_to_cstr_def)
qed

lemma vsver_label:
  "rich_header_productid_to_vsver_cstr product_id = '''' \<or>
   rich_header_productid_to_vsver_cstr product_id \<in> set vs_releases"
  by (simp add: rich_header_productid_to_vsver_cstr_def vs_releases_def)

lemma vsver_unknown:
  assumes "0x010a < product_id"
  shows "rich_header_productid_to_vsver_cstr product_id = ''''"
proof -
  from assms have u: "266 < unat product_id" by (simp add: word_less_nat_alt)
  then have "\<not> product_id \<le> 0x010a" "\<not> product_id \<le> 0x0106" "\<not> product_id \<le> 0x00fd"
    "\<not> product_id \<le> 0x00eb" "\<not> product_id \<le> 0x00d9" "\<not> product_id \<le> 0x00c7"
    "\<not> product_id \<le> 0x00b5" "\<not> product_id \<le> 0x0098" "\<not> product_id \<le> 0x0083"
    "\<not> product_id \<le> 0x006d" "\<not> product_id \<le> 0x0045" "\<not> product_id \<le> 0xD"
    "\<not> product_id \<le> 0x16"
    by (simp_all add: word_le_nat_alt)
  moreover from u have "product_id \<noteq> 2" "product_id \<noteq> 6" "product_id \<noteq> 0xC"
    "product_id \<noteq> 0xE" "product_id \<noteq> 1" by auto
  ultimately show ?thesis by (simp add: rich_header_productid_to_vsver_cstr_def)
qed

section \<open>The length returned\<close>

text \<open>
  C1, as the code has it. A length the call returns (a result that is not negative) is a
  multiple of 4, at most the offset of the signature, and the distance from the signature
  back to a word that decodes to \<open>DanS\<close> under the key. The call checks nothing more:
  neither that the length is at least 16 nor that it is 16 plus a multiple of 8.
\<close>

theorem returned_length:
  assumes "ret (rich_header_from_data data rhdr0) = Inr n" and "0 \<le> n"
  shows "n mod 4 = 0 \<and> 0 \<le> rhdr (rich_header_from_data data rhdr0) - n \<and>
         rich_at data (rhdr (rich_header_from_data data rhdr0)) \<and>
         (\<exists>key. load32 data (rhdr (rich_header_from_data data rhdr0) + 4) = Some key \<and>
                dans_at data key (rhdr (rich_header_from_data data rhdr0) - n))"
proof -
  from find_rich_cases [of data] show ?thesis
  proof
    assume "fst (find_rich data 64) = Inr None"
    with assms show ?thesis by (simp add: from_data_not_found)
  next
    assume "\<exists>q. fst (find_rich data 64) = Inr (Some q)"
    then obtain q where q: "fst (find_rich data 64) = Inr (Some q)" ..
    from find_rich_found [OF q] have rq: "rich_at data q" by (auto simp: rich_at_def)
    from assms(1) have "fst (find_dans data q q) = Inr n" by (simp add: from_data_found [OF q])
    from find_dans_result [OF this] assms(2) obtain k key where
      "n = q - (q - 4 * int k)" "0 \<le> q - 4 * int k" "load32 data (q + 4) = Some key"
      "dans_at data key (q - 4 * int k)" by auto
    with rq show ?thesis by (auto simp: from_data_found [OF q])
  qed
qed

theorem returned_length_witness:
  "ret (rich_header_from_data buf_dans_adjacent 0) = Inr 4 \<and> (0 :: int) \<le> 4 \<and>
   (4 :: int) mod 4 = 0 \<and> 0 \<le> rhdr (rich_header_from_data buf_dans_adjacent 0) - 4 \<and>
   rich_at buf_dans_adjacent (rhdr (rich_header_from_data buf_dans_adjacent 0)) \<and>
   (\<exists>key. load32 buf_dans_adjacent (rhdr (rich_header_from_data buf_dans_adjacent 0) + 4) = Some key \<and>
          dans_at buf_dans_adjacent key (rhdr (rich_header_from_data buf_dans_adjacent 0) - 4))"
proof -
  have h: "ret (rich_header_from_data buf_dans_adjacent 0) = Inr 4" by code_simp
  have p: "(0 :: int) \<le> 4" by simp
  from returned_length [OF h p] h show ?thesis by simp
qed

text \<open>
  The masked \<open>DanS\<close> word right before the signature: the call returns the length 4.
\<close>

theorem returned_length_counterexample:
  "ret (rich_header_from_data buf_dans_adjacent 0) = Inr 4 \<and> \<not> length_invariant 4"
proof -
  have "ret (rich_header_from_data buf_dans_adjacent 0) = Inr 4" by code_simp
  then show ?thesis by (simp add: length_invariant_def)
qed

section \<open>The round trip\<close>

text \<open>
  C2, as the code has it. A file assembled as padding, the header words XORed with the key,
  the signature and the key, where the padding has at least 64 bytes and a multiple of 4 of
  them, no offset from 64 on that is a multiple of 4 holds the signature before the real
  one, the key is not \<open>Rich XOR DanS\<close>, and no word of an entry is the word \<open>DanS\<close>:
  \<open>rich_header_from_data\<close> returns the length \<open>16 + 8 * N\<close> and sets \<open>*rhdr\<close> to the
  signature, the word after it is the key, and \<open>rich_header_unmask\<close> with that pointer
  and length, in place or into a buffer after the file, leaves the \<open>N\<close> entries as they
  were before masking, in their order.
\<close>

theorem round_trip:
  assumes pad: "64 \<le> length pad" "length pad mod 4 = 0"
    and first: "\<forall>a. 64 \<le> a \<and> a < int (length pad) + 16 + 8 * int (length prods) \<and> a mod 4 = 0 \<longrightarrow>
                  \<not> rich_at (assemble pad key prods) a"
    and k: "key \<noteq> le_word rich_header_signature XOR le_word rich_header_dans"
    and nd: "\<forall>e \<in> set prods. le_word rich_header_dans \<notin> set (product_words e)"
    and bound: "16 + 8 * length prods < 2 ^ 64"
    and dst: "dst = int (length pad) \<or>
              (int (length (assemble pad key prods)) \<le> dst \<and>
               dst + 16 + 8 * int (length prods) \<le> int (length (assemble pad key prods @ out)))"
  shows "ret (rich_header_from_data (assemble pad key prods) rhdr0) =
           Inr (16 + 8 * int (length prods)) \<and>
         rhdr (rich_header_from_data (assemble pad key prods) rhdr0) =
           int (length pad) + 16 + 8 * int (length prods) \<and>
         load32 (assemble pad key prods)
           (rhdr (rich_header_from_data (assemble pad key prods) rhdr0) + 4) = Some key \<and>
         (\<exists>mem'. rich_header_unmask (assemble pad key prods @ out)
                    (int (length pad) + 16 + 8 * int (length prods))
                    (16 + 8 * length prods) dst = Inr mem' \<and>
                  rich_header_products_len (16 + 8 * length prods) = length prods \<and>
                  (\<forall>j < length prods. Products mem' dst j = Some (prods ! j)))"
proof -
  let ?B = "assemble pad key prods"
  let ?P = "int (length pad)"
  let ?N = "length prods"
  let ?R = "?P + 16 + 8 * int ?N"
  let ?sz = "16 + 8 * ?N"
  have len: "int (length ?B) = ?R + 8" by (simp add: length_assemble)
  note loc = assemble_locate [OF pad first k nd]
  have c1: "ret (rich_header_from_data ?B rhdr0) = Inr (16 + 8 * int ?N)"
    by (simp add: from_data_found [OF loc(1)] loc(2))
  have c2: "rhdr (rich_header_from_data ?B rhdr0) = ?R"
    by (simp add: from_data_found [OF loc(1)])
  have "load32 ?B (?R + 4) = Some key" using key_assemble [of pad key prods "[]"] by simp
  then have c3: "load32 ?B (rhdr (rich_header_from_data ?B rhdr0) + 4) = Some key"
    by (simp only: c2)
  have src: "?R - int ?sz = ?P" by simp
  have s1: "0 \<le> ?R - int ?sz" by (simp only: src)
  have s2: "?R + 8 \<le> int (length (?B @ out))" using len by simp
  have s3: "?sz mod 4 = 0" by presburger
  have s4: "load32 (?B @ out) (?R + 4) = Some key" by (rule key_assemble)
  from dst have s5: "0 \<le> dst" using len by auto
  from dst have s6: "dst + int ?sz \<le> int (length (?B @ out))" using len by auto
  from dst have s7: "dst = ?R - int ?sz \<or> dst + int ?sz \<le> ?R - int ?sz \<or> ?R + 8 \<le> dst"
    using len by auto
  from unmask_words [OF s1 s2 s3 s4 s5 s6 s7] obtain mem' where
    run: "rich_header_unmask (?B @ out) ?R ?sz dst = Inr mem'"
    and words: "\<forall>i < ?sz div 4. \<exists>w. load32 (?B @ out) (?R - int ?sz + 4 * int i) = Some w \<and>
                load32 mem' (dst + 4 * int i) = Some (w XOR key)"
    by (elim exE conjE)
  have n4: "?sz div 4 = 4 + 2 * ?N" by presburger
  have outw: "load32 mem' (dst + 4 * int i) = Some (header_words prods ! i)"
    if "i < 4 + 2 * ?N" for i
  proof -
    from that n4 have "i < ?sz div 4" by simp
    with words obtain w where w: "load32 (?B @ out) (?R - int ?sz + 4 * int i) = Some w"
      "load32 mem' (dst + 4 * int i) = Some (w XOR key)" by blast
    from w(1) have "load32 (?B @ out) (?P + 4 * int i) = Some w" by (simp only: src)
    with load32_assemble [OF that, of pad key out] have "w = header_words prods ! i XOR key"
      by simp
    with w(2) show ?thesis by (simp add: xor.assoc)
  qed
  have c5: "rich_header_products_len ?sz = ?N"
  proof -
    have "rich_header_products_len ?sz = (?sz - 16) div 8"
      using bound by (intro products_len_eq) simp_all
    then show ?thesis by simp
  qed
  have c6: "\<forall>j < ?N. Products mem' dst j = Some (prods ! j)"
  proof (intro allI impI)
    fix j assume j: "j < ?N"
    then have i0: "4 + 2 * j < 4 + 2 * ?N" and i1: "4 + 2 * j + 1 < 4 + 2 * ?N" by simp_all
    from nth_product_words [OF j] have
      h0: "header_words prods ! (4 + 2 * j) =
             ucast (BuildNumber (prods ! j)) OR push_bit 16 (ucast (ProductID (prods ! j)))"
      and h1: "header_words prods ! (4 + 2 * j + 1) = ObjectCount (prods ! j)"
      by (simp_all add: header_words_def)
    from outw [OF i0] h0 have w0: "load32 mem' (dst + 4 * int (4 + 2 * j)) =
        Some (ucast (BuildNumber (prods ! j)) OR push_bit 16 (ucast (ProductID (prods ! j))))"
      by simp
    from outw [OF i1] h1 have w1: "load32 mem' (dst + 4 * int (4 + 2 * j + 1)) =
        Some (ObjectCount (prods ! j))" by simp
    from Products_of_output [OF w0 w1] have "Products mem' dst j =
        Some \<lparr>BuildNumber = BuildNumber (prods ! j), ProductID = ProductID (prods ! j),
              ObjectCount = ObjectCount (prods ! j)\<rparr>"
      by (simp only: pack_low pack_high)
    then show "Products mem' dst j = Some (prods ! j)" by simp
  qed
  from run c5 c6 have c4: "\<exists>mem'. rich_header_unmask (?B @ out) ?R ?sz dst = Inr mem' \<and>
                  rich_header_products_len ?sz = ?N \<and>
                  (\<forall>j < ?N. Products mem' dst j = Some (prods ! j))"
    by (intro exI [of _ mem'] conjI)
  from c1 c2 c3 c4 show ?thesis by (intro conjI)
qed

theorem round_trip_witness:
  "ret (rich_header_from_data buf_one_product 0) = Inr 24 \<and>
   rhdr (rich_header_from_data buf_one_product 0) = 88 \<and>
   load32 buf_one_product (rhdr (rich_header_from_data buf_one_product 0) + 4) =
     Some 0x12345678 \<and>
   (\<exists>mem'. rich_header_unmask buf_one_product 88 24 64 = Inr mem' \<and>
      rich_header_products_len 24 = 1 \<and>
      Products mem' 64 0 = Some \<lparr>BuildNumber = 0x1234, ProductID = 0x00aa, ObjectCount = 7\<rparr>)"
proof -
  let ?e = "\<lparr>BuildNumber = 0x1234, ProductID = 0x00aa, ObjectCount = 7\<rparr>"
  let ?pad = "replicate 64 (0 :: byte)"
  have b: "buf_one_product = assemble ?pad 0x12345678 [?e]" by (simp add: buf_one_product_def)
  have p: "64 \<le> length ?pad" "length ?pad mod 4 = 0" by simp_all
  have f: "\<forall>a. 64 \<le> a \<and> a < int (length ?pad) + 16 + 8 * int (length [?e]) \<and> a mod 4 = 0 \<longrightarrow>
             \<not> rich_at (assemble ?pad 0x12345678 [?e]) a"
  proof (intro allI impI)
    fix a :: int
    assume "64 \<le> a \<and> a < int (length ?pad) + 16 + 8 * int (length [?e]) \<and> a mod 4 = 0"
    then have "64 \<le> a" "a < 88" "a mod 4 = 0" by simp_all
    then have "a = 64 \<or> a = 68 \<or> a = 72 \<or> a = 76 \<or> a = 80 \<or> a = 84" by presburger
    then have "a \<in> set [64, 68, 72, 76, 80, 84]" by simp
    moreover have "\<forall>a \<in> set [64, 68, 72, 76, 80, 84]. \<not> rich_at buf_one_product a"
      by code_simp
    ultimately show "\<not> rich_at (assemble ?pad 0x12345678 [?e]) a" unfolding b by blast
  qed
  have k: "(0x12345678 :: u32) \<noteq> le_word rich_header_signature XOR le_word rich_header_dans"
    by code_simp
  have n: "\<forall>e \<in> set [?e]. le_word rich_header_dans \<notin> set (product_words e)" by code_simp
  have bd: "16 + 8 * length [?e] < (2 :: nat) ^ 64" by simp
  have d: "(64 :: int) = int (length ?pad) \<or>
           (int (length (assemble ?pad 0x12345678 [?e])) \<le> 64 \<and>
            64 + 16 + 8 * int (length [?e]) \<le> int (length (assemble ?pad 0x12345678 [?e] @ [])))"
    by simp
  note rt = round_trip [OF p f k n bd d, of 0, folded b]
  from rt have c1: "ret (rich_header_from_data buf_one_product 0) = Inr 24" by simp
  from rt have c2: "rhdr (rich_header_from_data buf_one_product 0) = 88" by simp
  note c3 = rt [THEN conjunct2, THEN conjunct2, THEN conjunct1]
  from rt obtain mem' where m: "rich_header_unmask (buf_one_product @ []) (int (length ?pad) + 16 + 8 * int (length [?e]))
                    (16 + 8 * length [?e]) 64 = Inr mem'"
     "rich_header_products_len (16 + 8 * length [?e]) = length [?e]"
     "\<forall>j < length [?e]. Products mem' 64 j = Some ([?e] ! j)"
    by (elim conjE exE)
  from m(1) have m1: "rich_header_unmask buf_one_product 88 24 64 = Inr mem'" by simp
  from m(2) have m2: "rich_header_products_len 24 = 1" by simp
  from m(3) have m3: "Products mem' 64 0 = Some ?e" by simp
  from m1 m2 m3 have c4: "\<exists>mem'. rich_header_unmask buf_one_product 88 24 64 = Inr mem' \<and>
      rich_header_products_len 24 = 1 \<and> Products mem' 64 0 = Some ?e"
    by (intro exI [of _ mem'] conjI)
  from c1 c2 c3 c4 show ?thesis by (intro conjI)
qed

text \<open>
  Without those conditions the length is not found: with 65 bytes of padding the call
  returns \<open>-1\<close>; with a count equal to \<open>DanS\<close> it returns 4 instead of 24; with the key
  \<open>Rich XOR DanS\<close> it returns 0; with the signature's bytes in the padding it returns
  \<open>-2\<close>.
\<close>

theorem round_trip_counterexample:
  "ret (rich_header_from_data buf_odd_padding 0) = Inr (- 1) \<and>
   ret (rich_header_from_data buf_dans_count 0) = Inr 4 \<and>
   ret (rich_header_from_data buf_key_clash 0) = Inr 0 \<and>
   ret (rich_header_from_data buf_rich_in_padding 0) = Inr (- 2)"
proof -
  have "ret (rich_header_from_data buf_odd_padding 0) = Inr (- 1)" by code_simp
  moreover have "ret (rich_header_from_data buf_dans_count 0) = Inr 4" by code_simp
  moreover have "ret (rich_header_from_data buf_key_clash 0) = Inr 0" by code_simp
  moreover have "ret (rich_header_from_data buf_rich_in_padding 0) = Inr (- 2)" by code_simp
  ultimately show ?thesis by simp
qed

section \<open>The out-parameter after a failure\<close>

text \<open>
  C3, as the code has it. When the call returns \<open>-1\<close> the forward loop has found no
  signature and \<open>*rhdr\<close> is as the caller left it. When it returns \<open>-2\<close> the forward loop
  has found the signature and \<open>*rhdr\<close> has been set: it points to that signature.
\<close>

theorem rhdr_after_failure:
  "(ret (rich_header_from_data data rhdr0) = Inr (- 1) \<longrightarrow>
      rhdr (rich_header_from_data data rhdr0) = rhdr0 \<and> fst (find_rich data 64) = Inr None) \<and>
   (ret (rich_header_from_data data rhdr0) = Inr (- 2) \<longrightarrow>
      fst (find_rich data 64) = Inr (Some (rhdr (rich_header_from_data data rhdr0))) \<and>
      64 \<le> rhdr (rich_header_from_data data rhdr0) \<and>
      rich_at data (rhdr (rich_header_from_data data rhdr0)))"
proof -
  from find_rich_cases [of data] show ?thesis
  proof
    assume "fst (find_rich data 64) = Inr None"
    then show ?thesis by (simp add: from_data_not_found)
  next
    assume "\<exists>q. fst (find_rich data 64) = Inr (Some q)"
    then obtain q where q: "fst (find_rich data 64) = Inr (Some q)" ..
    from find_rich_found [OF q] have "64 \<le> q" "rich_at data q" by (auto simp: rich_at_def)
    with q find_dans_not_minus_one [of data q] show ?thesis
      by (simp add: from_data_found [OF q])
  qed
qed

theorem rhdr_after_failure_witness:
  "ret (rich_header_from_data buf_unaligned 7) = Inr (- 1) \<and>
   rhdr (rich_header_from_data buf_unaligned 7) = 7 \<and>
   ret (rich_header_from_data buf_no_dans 7) = Inr (- 2) \<and>
   rhdr (rich_header_from_data buf_no_dans 7) = 64 \<and>
   rich_at buf_no_dans (rhdr (rich_header_from_data buf_no_dans 7))"
proof -
  have a: "ret (rich_header_from_data buf_unaligned 7) = Inr (- 1)" by code_simp
  have b: "ret (rich_header_from_data buf_no_dans 7) = Inr (- 2)" by code_simp
  have c: "rhdr (rich_header_from_data buf_no_dans 7) = 64" by code_simp
  from rhdr_after_failure [of buf_unaligned 7] rhdr_after_failure [of buf_no_dans 7] a b c
  show ?thesis by simp
qed

text \<open>
  A signature with no \<open>DanS\<close> word before it: the call fails with \<open>-2\<close> and has
  overwritten the caller's \<open>*rhdr\<close>, which was 0.
\<close>

theorem rhdr_after_failure_counterexample:
  "ret (rich_header_from_data buf_no_dans 0) = Inr (- 2) \<and>
   rhdr (rich_header_from_data buf_no_dans 0) \<noteq> 0"
proof -
  have "ret (rich_header_from_data buf_no_dans 0) = Inr (- 2)" by code_simp
  moreover have "rhdr (rich_header_from_data buf_no_dans 0) = 64" by code_simp
  ultimately show ?thesis by simp
qed

section \<open>The signature at the end of the buffer\<close>

text \<open>
  C4, as the code has it. When a signature stands at an offset \<open>m \<ge> 64\<close> that is a
  multiple of 4 and the four bytes of its key are the last four of the buffer, the call
  finds the first signature at a multiple of 4 from offset 64 on (\<open>m\<close> itself when none
  precedes it): \<open>*rhdr\<close> points to it, the result is not \<open>-1\<close>, and every read of the
  call lies in the buffer.
\<close>

theorem key_at_buffer_end:
  assumes "64 \<le> m" and "m mod 4 = 0" and "int (length data) = m + 8" and "rich_at data m"
  shows "\<exists>q n. rhdr (rich_header_from_data data rhdr0) = q \<and>
           ret (rich_header_from_data data rhdr0) = Inr n \<and> n \<noteq> - 1 \<and>
           (\<forall>a \<in> set (reads (rich_header_from_data data rhdr0)).
               0 \<le> a \<and> a + 4 \<le> int (length data)) \<and>
           64 \<le> q \<and> q \<le> m \<and> q mod 4 = 0 \<and> rich_at data q \<and>
           (\<forall>a. 64 \<le> a \<and> a < q \<and> a mod 4 = 0 \<longrightarrow> \<not> rich_at data a)"
proof -
  from assms(3) have inr: "m + 4 < int (length data)" by simp
  from first_aligned_marker [OF assms(1,2) inr assms(4)] obtain q where
    q: "fst (find_rich data 64) = Inr (Some q) \<and> 64 \<le> q \<and> q \<le> m \<and> q mod 4 = 0 \<and>
        rich_at data q \<and> (\<forall>a. 64 \<le> a \<and> a < q \<and> a mod 4 = 0 \<longrightarrow> \<not> rich_at data a)" ..
  then have f: "fst (find_rich data 64) = Inr (Some q)" and q64: "64 \<le> q" and qm: "q \<le> m"
    by simp_all
  from q64 qm assms(3) obtain key where key: "load32 data (q + 4) = Some key"
    using load32_in_range [of "q + 4" data] by auto
  from qm assms(3) have qin: "q + 4 \<le> int (length data)" by simp
  from find_dans_no_fault [OF key qin] obtain n where n: "fst (find_dans data q q) = Inr n" ..
  with find_dans_not_minus_one [of data q] have n1: "n \<noteq> - 1" by auto
  have h1: "rhdr (rich_header_from_data data rhdr0) = q"
    by (simp add: from_data_found [OF f])
  have h2: "ret (rich_header_from_data data rhdr0) = Inr n"
    by (simp add: from_data_found [OF f] n)
  have h3: "\<forall>a \<in> set (reads (rich_header_from_data data rhdr0)).
               0 \<le> a \<and> a + 4 \<le> int (length data)"
  proof
    fix a assume "a \<in> set (reads (rich_header_from_data data rhdr0))"
    then have "a \<in> set (snd (find_rich data 64)) \<or> a \<in> set (snd (find_dans data q q))"
      by (simp add: from_data_found [OF f])
    then show "0 \<le> a \<and> a + 4 \<le> int (length data)"
    proof
      assume "a \<in> set (snd (find_rich data 64))"
      from find_rich_reads [OF this] show ?thesis by simp
    next
      assume "a \<in> set (snd (find_dans data q q))"
      from find_dans_reads [OF this] q64 qm assms(3) show ?thesis by auto
    qed
  qed
  have "rhdr (rich_header_from_data data rhdr0) = q \<and>
           ret (rich_header_from_data data rhdr0) = Inr n \<and> n \<noteq> - 1 \<and>
           (\<forall>a \<in> set (reads (rich_header_from_data data rhdr0)).
               0 \<le> a \<and> a + 4 \<le> int (length data)) \<and>
           64 \<le> q \<and> q \<le> m \<and> q mod 4 = 0 \<and> rich_at data q \<and>
           (\<forall>a. 64 \<le> a \<and> a < q \<and> a mod 4 = 0 \<longrightarrow> \<not> rich_at data a)"
    by (rule conjI [OF h1 conjI [OF h2 conjI [OF n1 conjI [OF h3 conjunct2 [OF q]]]]])
  then show ?thesis by (intro exI)
qed

theorem key_at_buffer_end_witness:
  "(64 :: int) \<le> 64 \<and> (64 :: int) mod 4 = 0 \<and> int (length buf_no_dans) = 64 + 8 \<and>
   rich_at buf_no_dans 64 \<and> rhdr (rich_header_from_data buf_no_dans 0) = 64 \<and>
   (\<exists>n. ret (rich_header_from_data buf_no_dans 0) = Inr n \<and> n \<noteq> - 1)"
proof -
  have a: "(64 :: int) \<le> 64" "(64 :: int) mod 4 = 0" by simp_all
  have b: "int (length buf_no_dans) = 64 + 8" by (simp add: buf_no_dans_def)
  have c: "rich_at buf_no_dans 64" by code_simp
  from key_at_buffer_end [OF a b c, of 0] obtain q n where
    q: "rhdr (rich_header_from_data buf_no_dans 0) = q \<and>
        ret (rich_header_from_data buf_no_dans 0) = Inr n \<and> n \<noteq> - 1 \<and>
        (\<forall>a \<in> set (reads (rich_header_from_data buf_no_dans 0)).
               0 \<le> a \<and> a + 4 \<le> int (length buf_no_dans)) \<and>
        64 \<le> q \<and> q \<le> 64 \<and> q mod 4 = 0 \<and> rich_at buf_no_dans q \<and>
        (\<forall>a. 64 \<le> a \<and> a < q \<and> a mod 4 = 0 \<longrightarrow> \<not> rich_at buf_no_dans a)"
    by (elim exE)
  then have "rhdr (rich_header_from_data buf_no_dans 0) = 64"
    and "ret (rich_header_from_data buf_no_dans 0) = Inr n" and "n \<noteq> - 1" by simp_all
  with a b c show ?thesis by simp
qed

text \<open>
  The signature at offset 65 with its key in the last four bytes: the call returns \<open>-1\<close>.
\<close>

theorem key_at_buffer_end_counterexample:
  "rich_at buf_unaligned 65 \<and> int (length buf_unaligned) = 65 + 8 \<and>
   ret (rich_header_from_data buf_unaligned 0) = Inr (- 1)"
proof -
  have "int (length buf_unaligned) = 65 + 8" by (simp add: buf_unaligned_def)
  moreover have "rich_at buf_unaligned 65" by code_simp
  moreover have "ret (rich_header_from_data buf_unaligned 0) = Inr (- 1)" by code_simp
  ultimately show ?thesis by simp
qed

text \<open>
  One byte less of key, the signature at offset 64: the loop's condition \<open>64 + 4 < 71\<close>
  still admits the signature, and the read of the key leaves the buffer.
\<close>

lemma key_cut_reads_outside:
  "rich_header_from_data buf_key_cut 0 =
     \<lparr>ret = Inl (OutOfBounds 68), rhdr = 64, reads = [64, 64, 68]\<rparr>"
  by code_simp

section \<open>The backward scan\<close>

text \<open>
  C5. Once the forward loop has found the signature at \<open>q\<close> and the key, the four bytes
  after it, lies in the buffer: the call returns the distance \<open>4 * k\<close> from the signature
  to the closest word at \<open>q\<close>, \<open>q - 4\<close>, ... down to offset 0 whose XOR with the key is
  \<open>DanS\<close>; words that decode to anything else, zero included, are passed over. When no
  word down to offset 0 decodes to \<open>DanS\<close> the call returns \<open>-2\<close>.
\<close>

theorem backward_scan_closest:
  assumes found: "fst (find_rich data 64) = Inr (Some q)"
    and key: "load32 data (q + 4) = Some key"
  shows "(0 \<le> q - 4 * int k \<and> dans_at data key (q - 4 * int k) \<and>
          (\<forall>j<k. \<not> dans_at data key (q - 4 * int j)) \<longrightarrow>
            ret (rich_header_from_data data rhdr0) = Inr (4 * int k)) \<and>
         ((\<forall>i. 0 \<le> q - 4 * int i \<longrightarrow> \<not> dans_at data key (q - 4 * int i)) \<longrightarrow>
            ret (rich_header_from_data data rhdr0) = Inr (- 2))"
proof -
  from find_rich_found [OF found] have inr: "q + 4 \<le> int (length data)" by auto
  have r: "ret (rich_header_from_data data rhdr0) = fst (find_dans data q q)"
    by (simp add: from_data_found [OF found])
  show ?thesis
  proof (intro conjI impI)
    assume a: "0 \<le> q - 4 * int k \<and> dans_at data key (q - 4 * int k) \<and>
          (\<forall>j<k. \<not> dans_at data key (q - 4 * int j))"
    then have "fst (find_dans data q q) = Inr (q - (q - 4 * int k))"
      by (intro find_dans_hit [OF key inr]) auto
    with r show "ret (rich_header_from_data data rhdr0) = Inr (4 * int k)" by simp
  next
    assume "\<forall>i. 0 \<le> q - 4 * int i \<longrightarrow> \<not> dans_at data key (q - 4 * int i)"
    then have "fst (find_dans data q q) = Inr (- 2)"
      by (rule find_dans_miss [OF key inr])
    with r show "ret (rich_header_from_data data rhdr0) = Inr (- 2)" by simp
  qed
qed

theorem backward_scan_closest_witness:
  "fst (find_rich buf_dans_adjacent 64) = Inr (Some 64) \<and>
   load32 buf_dans_adjacent (64 + 4) = Some 0 \<and>
   dans_at buf_dans_adjacent 0 (64 - 4 * int 1) \<and>
   ret (rich_header_from_data buf_dans_adjacent 0) = Inr (4 * int 1) \<and>
   fst (find_rich buf_no_dans 64) = Inr (Some 64) \<and>
   load32 buf_no_dans (64 + 4) = Some 0 \<and>
   ret (rich_header_from_data buf_no_dans 0) = Inr (- 2)"
proof -
  have f1: "fst (find_rich buf_dans_adjacent 64) = Inr (Some 64)" by code_simp
  have k1: "load32 buf_dans_adjacent (64 + 4) = Some 0" by code_simp
  have d1: "dans_at buf_dans_adjacent 0 (64 - 4 * int 1)" by code_simp
  have n1: "\<forall>j<1. \<not> dans_at buf_dans_adjacent 0 (64 - 4 * int j)" by code_simp
  have f2: "fst (find_rich buf_no_dans 64) = Inr (Some 64)" by code_simp
  have k2: "load32 buf_no_dans (64 + 4) = Some 0" by code_simp
  have n2: "\<forall>i. 0 \<le> 64 - 4 * int i \<longrightarrow> \<not> dans_at buf_no_dans 0 (64 - 4 * int i)"
  proof (intro allI impI)
    fix i :: nat assume "0 \<le> 64 - 4 * int i"
    then have "i \<in> set [0..<17]" by simp
    moreover have "\<forall>i \<in> set [0..<17]. \<not> dans_at buf_no_dans 0 (64 - 4 * int i)" by code_simp
    ultimately show "\<not> dans_at buf_no_dans 0 (64 - 4 * int i)" by blast
  qed
  from backward_scan_closest [OF f1 k1, of 1 0] d1 n1
  have r1: "ret (rich_header_from_data buf_dans_adjacent 0) = Inr (4 * int 1)" by simp
  from backward_scan_closest [OF f2 k2, of 0 0] n2
  have r2: "ret (rich_header_from_data buf_no_dans 0) = Inr (- 2)" by blast
  from f1 k1 d1 r1 f2 k2 r2 show ?thesis by blast
qed

section \<open>The bytes before offset 64\<close>

text \<open>
  C6, as the code has it. On two buffers of equal length that agree from offset 64 on, the
  forward loop does the same: same reads, none below offset 64, same outcome, so the two
  calls agree on \<open>*rhdr\<close> and on whether the result is \<open>-1\<close>. The backward loop reads
  the words below the signature down to offset 0: the two calls agree in everything when
  the header found starts at offset 64 or later, and may differ otherwise.
\<close>

theorem dos_header_bytes:
  assumes len: "length data = length data'" and agree: "drop 64 data = drop 64 data'"
  shows "find_rich data' 64 = find_rich data 64 \<and>
         (\<forall>a \<in> set (snd (find_rich data 64)). 64 \<le> a) \<and>
         rhdr (rich_header_from_data data' rhdr0) = rhdr (rich_header_from_data data rhdr0) \<and>
         (ret (rich_header_from_data data' rhdr0) = Inr (- 1) \<longleftrightarrow>
            ret (rich_header_from_data data rhdr0) = Inr (- 1)) \<and>
         (\<forall>n. ret (rich_header_from_data data rhdr0) = Inr n \<and> 0 \<le> n \<and>
               64 \<le> rhdr (rich_header_from_data data rhdr0) - n \<longrightarrow>
               rich_header_from_data data' rhdr0 = rich_header_from_data data rhdr0)"
proof -
  have fr: "find_rich data' 64 = find_rich data 64"
    using find_rich_agree [OF len, of 64 64] agree by simp
  have rd: "\<forall>a \<in> set (snd (find_rich data 64)). 64 \<le> a"
    using find_rich_reads [of _ data 64] by blast
  from find_rich_cases [of data] show ?thesis
  proof
    assume none: "fst (find_rich data 64) = Inr None"
    with fr have "fst (find_rich data' 64) = Inr None" by simp
    with none fr rd show ?thesis by (simp add: from_data_not_found)
  next
    assume "\<exists>q. fst (find_rich data 64) = Inr (Some q)"
    then obtain q where q: "fst (find_rich data 64) = Inr (Some q)" ..
    with fr have q': "fst (find_rich data' 64) = Inr (Some q)" by simp
    have h3: "rhdr (rich_header_from_data data' rhdr0) = rhdr (rich_header_from_data data rhdr0)"
      by (simp add: from_data_found [OF q] from_data_found [OF q'])
    have h4: "ret (rich_header_from_data data' rhdr0) = Inr (- 1) \<longleftrightarrow>
            ret (rich_header_from_data data rhdr0) = Inr (- 1)"
      using find_dans_not_minus_one [of data q] find_dans_not_minus_one [of data' q]
      by (simp add: from_data_found [OF q] from_data_found [OF q'])
    have h5: "\<forall>n. ret (rich_header_from_data data rhdr0) = Inr n \<and> 0 \<le> n \<and>
               64 \<le> rhdr (rich_header_from_data data rhdr0) - n \<longrightarrow>
               rich_header_from_data data' rhdr0 = rich_header_from_data data rhdr0"
    proof (intro allI impI)
      fix n assume a: "ret (rich_header_from_data data rhdr0) = Inr n \<and> 0 \<le> n \<and>
               64 \<le> rhdr (rich_header_from_data data rhdr0) - n"
      then have "fst (find_dans data q q) = Inr n" "0 \<le> n" "int 64 \<le> q - n"
        by (simp_all add: from_data_found [OF q])
      from find_dans_agree [OF len agree this] have "find_dans data' q q = find_dans data q q"
        by simp
      with fr show "rich_header_from_data data' rhdr0 = rich_header_from_data data rhdr0"
        by (simp add: from_data_found [OF q] from_data_found [OF q'])
    qed
    from fr rd h3 h4 h5 show ?thesis by (intro conjI)
  qed
qed

theorem dos_header_bytes_witness:
  "length (buf_dans_at_64 0) = length (buf_dans_at_64 255) \<and>
   drop 64 (buf_dans_at_64 0) = drop 64 (buf_dans_at_64 255) \<and>
   ret (rich_header_from_data (buf_dans_at_64 0) 0) = Inr 4 \<and>
   rhdr (rich_header_from_data (buf_dans_at_64 0) 0) = 68 \<and>
   rich_header_from_data (buf_dans_at_64 255) 0 = rich_header_from_data (buf_dans_at_64 0) 0"
proof -
  have l: "length (buf_dans_at_64 0) = length (buf_dans_at_64 255)"
    by (simp add: buf_dans_at_64_def)
  have d: "drop 64 (buf_dans_at_64 0) = drop 64 (buf_dans_at_64 255)"
    by (simp add: buf_dans_at_64_def)
  have r: "ret (rich_header_from_data (buf_dans_at_64 0) 0) = Inr 4" by code_simp
  have h: "rhdr (rich_header_from_data (buf_dans_at_64 0) 0) = 68" by code_simp
  from dos_header_bytes [OF l d, of 0] have
    "\<forall>n. ret (rich_header_from_data (buf_dans_at_64 0) 0) = Inr n \<and> 0 \<le> n \<and>
               64 \<le> rhdr (rich_header_from_data (buf_dans_at_64 0) 0) - n \<longrightarrow>
       rich_header_from_data (buf_dans_at_64 255) 0 = rich_header_from_data (buf_dans_at_64 0) 0"
    by simp
  with r h have "rich_header_from_data (buf_dans_at_64 255) 0 =
     rich_header_from_data (buf_dans_at_64 0) 0" by simp
  with l d r h show ?thesis by simp
qed

text \<open>
  Two buffers of 72 bytes that differ in bytes 60 to 63 only: the call returns 4 on one and
  \<open>-2\<close> on the other.
\<close>

theorem dos_header_bytes_counterexample:
  "length buf_dans_adjacent = length buf_no_dans \<and>
   drop 64 buf_dans_adjacent = drop 64 buf_no_dans \<and>
   ret (rich_header_from_data buf_dans_adjacent 0) = Inr 4 \<and>
   ret (rich_header_from_data buf_no_dans 0) = Inr (- 2)"
proof -
  have "length buf_dans_adjacent = length buf_no_dans"
    by (simp add: buf_dans_adjacent_def buf_no_dans_def)
  moreover have "drop 64 buf_dans_adjacent = drop 64 buf_no_dans"
    by (simp add: buf_dans_adjacent_def buf_no_dans_def)
  moreover have "ret (rich_header_from_data buf_dans_adjacent 0) = Inr 4" by code_simp
  moreover have "ret (rich_header_from_data buf_no_dans 0) = Inr (- 2)" by code_simp
  ultimately show ?thesis by simp
qed

section \<open>The unmasked header\<close>

text \<open>
  C7, as the code has it. For a span of \<open>sz\<close> bytes that ends at the signature at \<open>rh\<close>,
  with the span and the eight bytes of signature and key inside memory, \<open>sz\<close> a multiple
  of 4 and at least 16, and a destination that is the span itself or does not overlap the
  span and its key: \<open>rich_header_unmask\<close> returns, changes nothing outside the
  destination, and leaves there \<open>sz div 4\<close> words, word \<open>i\<close> the XOR of word \<open>i\<close> of
  the span with the key. After the first four words the macro counts
  \<open>(sz - 16) div 8\<close> entries, and entry \<open>j\<close> has the low half of word \<open>4 + 2 * j\<close>
  as its build number, the high half as its product identifier and word \<open>5 + 2 * j\<close> as
  its count.
\<close>

theorem unmask_postcondition:
  assumes span: "0 \<le> rh - int sz" "rh + 8 \<le> int (length mem)"
    and sz: "sz mod 4 = 0" "16 \<le> sz" "sz < 2 ^ 64"
    and key: "load32 mem (rh + 4) = Some key"
    and dst: "0 \<le> dst" "dst + int sz \<le> int (length mem)"
    and ov: "dst = rh - int sz \<or> dst + int sz \<le> rh - int sz \<or> rh + 8 \<le> dst"
  shows "\<exists>mem'. rich_header_unmask mem rh sz dst = Inr mem' \<and> length mem' = length mem \<and>
           (\<forall>i < sz div 4. \<exists>w. load32 mem (rh - int sz + 4 * int i) = Some w \<and>
                load32 mem' (dst + 4 * int i) = Some (w XOR key)) \<and>
           (\<forall>k < length mem. int k < dst \<or> dst + int sz \<le> int k \<longrightarrow> mem' ! k = mem ! k) \<and>
           rich_header_products_len sz = (sz - 16) div 8 \<and>
           (\<forall>j < rich_header_products_len sz. \<exists>w0 w1.
                load32 mem (rh - int sz + 16 + 8 * int j) = Some w0 \<and>
                load32 mem (rh - int sz + 16 + 8 * int j + 4) = Some w1 \<and>
                Products mem' dst j =
                  Some \<lparr>BuildNumber = ucast (w0 XOR key),
                        ProductID = ucast (drop_bit 16 (w0 XOR key)),
                        ObjectCount = w1 XOR key\<rparr>)"
proof -
  from sz(1) have n4: "4 * (sz div 4) = sz" by presburger
  from unmask_words [OF span sz(1) key dst ov] obtain mem' where
    h1: "rich_header_unmask mem rh sz dst = Inr mem'" and len: "length mem' = length mem"
    and h3: "\<forall>i < sz div 4. \<exists>w. load32 mem (rh - int sz + 4 * int i) = Some w \<and>
                load32 mem' (dst + 4 * int i) = Some (w XOR key)"
    and h4: "\<forall>k < length mem. int k < dst \<or> dst + int sz \<le> int k \<longrightarrow> mem' ! k = mem ! k"
    by (elim exE conjE)
  have h5: "rich_header_products_len sz = (sz - 16) div 8"
    using sz(2,3) by (rule products_len_eq)
  have h6: "\<forall>j < rich_header_products_len sz. \<exists>w0 w1.
                load32 mem (rh - int sz + 16 + 8 * int j) = Some w0 \<and>
                load32 mem (rh - int sz + 16 + 8 * int j + 4) = Some w1 \<and>
                Products mem' dst j =
                  Some \<lparr>BuildNumber = ucast (w0 XOR key),
                        ProductID = ucast (drop_bit 16 (w0 XOR key)),
                        ObjectCount = w1 XOR key\<rparr>"
  proof (intro allI impI)
    fix j assume "j < rich_header_products_len sz"
    with h5 have j: "j < (sz - 16) div 8" by simp
    with sz(2) n4 have i0: "4 + 2 * j < sz div 4" and i1: "4 + 2 * j + 1 < sz div 4" by presburger+
    from h3 i0 obtain w0 where
      w0: "load32 mem (rh - int sz + 4 * int (4 + 2 * j)) = Some w0"
          "load32 mem' (dst + 4 * int (4 + 2 * j)) = Some (w0 XOR key)" by blast
    from h3 i1 obtain w1 where
      w1: "load32 mem (rh - int sz + 4 * int (4 + 2 * j + 1)) = Some w1"
          "load32 mem' (dst + 4 * int (4 + 2 * j + 1)) = Some (w1 XOR key)" by blast
    have e0: "rh - int sz + 4 * int (4 + 2 * j) = rh - int sz + 16 + 8 * int j"
      and e1: "rh - int sz + 4 * int (4 + 2 * j + 1) = rh - int sz + 16 + 8 * int j + 4"
      by simp_all
    from w0(1) have a0: "load32 mem (rh - int sz + 16 + 8 * int j) = Some w0"
      by (simp only: e0)
    from w1(1) have a1: "load32 mem (rh - int sz + 16 + 8 * int j + 4) = Some w1"
      by (simp only: e1)
    from a0 a1 Products_of_output [OF w0(2) w1(2)]
    show "\<exists>w0 w1. load32 mem (rh - int sz + 16 + 8 * int j) = Some w0 \<and>
                load32 mem (rh - int sz + 16 + 8 * int j + 4) = Some w1 \<and>
                Products mem' dst j =
                  Some \<lparr>BuildNumber = ucast (w0 XOR key),
                        ProductID = ucast (drop_bit 16 (w0 XOR key)),
                        ObjectCount = w1 XOR key\<rparr>" by blast
  qed
  show ?thesis by (rule exI [of _ mem'], intro conjI h1 len h3 h4 h5 h6)
qed

theorem unmask_postcondition_witness:
  "0 \<le> (88 :: int) - int 24 \<and> 88 + 8 \<le> int (length buf_one_product) \<and>
   (24 :: nat) mod 4 = 0 \<and> (16 :: nat) \<le> 24 \<and> (24 :: nat) < 2 ^ 64 \<and>
   load32 buf_one_product (88 + 4) = Some 0x12345678 \<and>
   (\<exists>mem'. rich_header_unmask buf_one_product 88 24 64 = Inr mem' \<and>
      rich_header_products_len 24 = 1 \<and>
      Products mem' 64 0 = Some \<lparr>BuildNumber = 0x1234, ProductID = 0xaa, ObjectCount = 7\<rparr>)"
proof -
  have len: "int (length buf_one_product) = 96" by code_simp
  have a: "0 \<le> (88 :: int) - int 24" "88 + 8 \<le> int (length buf_one_product)"
    by (simp_all add: len)
  have b: "(24 :: nat) mod 4 = 0" "(16 :: nat) \<le> 24" "(24 :: nat) < 2 ^ 64" by simp_all
  have k: "load32 buf_one_product (88 + 4) = Some 0x12345678" by code_simp
  have d: "(0 :: int) \<le> 64" "64 + int 24 \<le> int (length buf_one_product)" by (simp_all add: len)
  have o: "(64 :: int) = 88 - int 24 \<or> 64 + int 24 \<le> 88 - int 24 \<or> (88 :: int) + 8 \<le> 64"
    by simp
  have w0: "load32 buf_one_product (88 - int 24 + 16 + 8 * int 0) = Some 0x129E444C" by code_simp
  have w1: "load32 buf_one_product (88 - int 24 + 16 + 8 * int 0 + 4) = Some 0x1234567F"
    by code_simp
  have x0: "(0x129E444C :: u32) XOR 0x12345678 = 0x00AA1234" by simp
  have x1: "(0x1234567F :: u32) XOR 0x12345678 = 7" by simp
  have y0: "(ucast (0x00AA1234 :: u32) :: u16) = 0x1234" by simp
  have y1: "(ucast (drop_bit 16 (0x00AA1234 :: u32)) :: u16) = 0xaa" by simp
  from unmask_postcondition [OF a b k d o] obtain mem' where
    r: "rich_header_unmask buf_one_product 88 24 64 = Inr mem'"
    and n: "rich_header_products_len 24 = (24 - 16) div 8"
    and p: "\<forall>j < rich_header_products_len 24. \<exists>w0 w1.
                load32 buf_one_product (88 - int 24 + 16 + 8 * int j) = Some w0 \<and>
                load32 buf_one_product (88 - int 24 + 16 + 8 * int j + 4) = Some w1 \<and>
                Products mem' 64 j =
                  Some \<lparr>BuildNumber = ucast (w0 XOR 0x12345678),
                        ProductID = ucast (drop_bit 16 (w0 XOR 0x12345678)),
                        ObjectCount = w1 XOR 0x12345678\<rparr>"
    by (elim exE conjE)
  from n have n1: "rich_header_products_len 24 = 1" by simp
  then have "(0 :: nat) < rich_header_products_len 24" by simp
  with p obtain v0 v1 where
    v: "load32 buf_one_product (88 - int 24 + 16 + 8 * int 0) = Some v0"
       "load32 buf_one_product (88 - int 24 + 16 + 8 * int 0 + 4) = Some v1"
       "Products mem' 64 0 =
                  Some \<lparr>BuildNumber = ucast (v0 XOR 0x12345678),
                        ProductID = ucast (drop_bit 16 (v0 XOR 0x12345678)),
                        ObjectCount = v1 XOR 0x12345678\<rparr>"
    by blast
  from v(1) w0 have "v0 = 0x129E444C" by simp
  moreover from v(2) w1 have "v1 = 0x1234567F" by simp
  ultimately have "Products mem' 64 0 =
     Some \<lparr>BuildNumber = 0x1234, ProductID = 0xaa, ObjectCount = 7\<rparr>"
    using v(3) by (simp only: x0 x1 y0 y1)
  with r n1 have "\<exists>mem'. rich_header_unmask buf_one_product 88 24 64 = Inr mem' \<and>
      rich_header_products_len 24 = 1 \<and>
      Products mem' 64 0 = Some \<lparr>BuildNumber = 0x1234, ProductID = 0xaa, ObjectCount = 7\<rparr>"
    by blast
  with a b k show ?thesis by (intro conjI)
qed

text \<open>
  A span of four bytes is a positive multiple of 4 inside the buffer: the output has one
  word, the macro counts \<open>2305843009213693950\<close> entries and the first of them lies
  outside memory.
\<close>

theorem unmask_postcondition_counterexample:
  "0 \<le> (64 :: int) - int 4 \<and> 64 + 8 \<le> int (length buf_dans_adjacent) \<and>
   (4 :: nat) mod 4 = 0 \<and> (0 :: nat) < 4 \<and>
   rich_header_products_len 4 = 2305843009213693950 \<and>
   (case rich_header_unmask buf_dans_adjacent 64 4 60 of
      Inl f \<Rightarrow> False
    | Inr m \<Rightarrow> length m = 72 \<and> Products m 60 0 = None)"
proof -
  have "64 + 8 \<le> int (length buf_dans_adjacent)" by (simp add: buf_dans_adjacent_def)
  moreover have "rich_header_products_len 4 = 2305843009213693950"
    by (simp add: rich_header_products_len_def)
  moreover have "(case rich_header_unmask buf_dans_adjacent 64 4 60 of
      Inl f \<Rightarrow> False
    | Inr m \<Rightarrow> length m = 72 \<and> Products m 60 0 = None)" by code_simp
  ultimately show ?thesis by simp
qed

section \<open>The stride of the forward scan\<close>

text \<open>
  C8, as the code has it. The forward loop advances four bytes a step from offset 64: it
  reads the windows at offsets 64, 68, 72, ... and no other. A signature at an offset that
  is not a multiple of 4 is never found: when no offset from 64 on that is a multiple of 4
  holds the signature the call returns \<open>-1\<close> and leaves \<open>*rhdr\<close> alone, whatever the
  other offsets hold. When a signature stands at an offset \<open>m \<ge> 64\<close> that is a multiple
  of 4, with the four bytes of its key inside the buffer, the call sets \<open>*rhdr\<close> to the
  first signature at a multiple of 4 from offset 64 on, which is at most \<open>m\<close>, and
  returns a length or \<open>-2\<close>, not \<open>-1\<close>.
\<close>

theorem word_granular_scan:
  "(\<forall>a \<in> set (snd (find_rich data 64)). 64 \<le> a \<and> a mod 4 = 0) \<and>
   ((\<forall>a. 64 \<le> a \<and> a mod 4 = 0 \<longrightarrow> \<not> rich_at data a) \<longrightarrow>
      ret (rich_header_from_data data rhdr0) = Inr (- 1) \<and>
      rhdr (rich_header_from_data data rhdr0) = rhdr0) \<and>
   (\<forall>m. 64 \<le> m \<and> m mod 4 = 0 \<and> m + 8 \<le> int (length data) \<and> rich_at data m \<longrightarrow>
      (\<exists>q n. rhdr (rich_header_from_data data rhdr0) = q \<and>
             ret (rich_header_from_data data rhdr0) = Inr n \<and> n \<noteq> - 1 \<and>
             64 \<le> q \<and> q \<le> m \<and> q mod 4 = 0 \<and> rich_at data q \<and>
             (\<forall>a. 64 \<le> a \<and> a < q \<and> a mod 4 = 0 \<longrightarrow> \<not> rich_at data a)))"
proof (intro conjI)
  show "\<forall>a \<in> set (snd (find_rich data 64)). 64 \<le> a \<and> a mod 4 = 0"
  proof
    fix a assume a: "a \<in> set (snd (find_rich data 64))"
    from find_rich_reads_stride [OF a] obtain k where "a = 64 + 4 * int k" ..
    then show "64 \<le> a \<and> a mod 4 = 0" by presburger
  qed
next
  show "(\<forall>a. 64 \<le> a \<and> a mod 4 = 0 \<longrightarrow> \<not> rich_at data a) \<longrightarrow>
      ret (rich_header_from_data data rhdr0) = Inr (- 1) \<and>
      rhdr (rich_header_from_data data rhdr0) = rhdr0"
  proof
    assume none: "\<forall>a. 64 \<le> a \<and> a mod 4 = 0 \<longrightarrow> \<not> rich_at data a"
    from find_rich_cases [of data]
    show "ret (rich_header_from_data data rhdr0) = Inr (- 1) \<and>
      rhdr (rich_header_from_data data rhdr0) = rhdr0"
    proof
      assume "fst (find_rich data 64) = Inr None"
      then show ?thesis by (simp add: from_data_not_found)
    next
      assume "\<exists>q. fst (find_rich data 64) = Inr (Some q)"
      then obtain q where q: "fst (find_rich data 64) = Inr (Some q)" ..
      from find_rich_found [OF q] obtain k where
        k: "q = 64 + 4 * int k" and r: "rich_at data q" by (auto simp: rich_at_def)
      from k have "64 \<le> q \<and> q mod 4 = 0" by presburger
      moreover from none have "64 \<le> q \<and> q mod 4 = 0 \<longrightarrow> \<not> rich_at data q" by (rule spec)
      ultimately have "\<not> rich_at data q" by (rule rev_mp)
      with r show ?thesis by simp
    qed
  qed
next
  show "\<forall>m. 64 \<le> m \<and> m mod 4 = 0 \<and> m + 8 \<le> int (length data) \<and> rich_at data m \<longrightarrow>
      (\<exists>q n. rhdr (rich_header_from_data data rhdr0) = q \<and>
             ret (rich_header_from_data data rhdr0) = Inr n \<and> n \<noteq> - 1 \<and>
             64 \<le> q \<and> q \<le> m \<and> q mod 4 = 0 \<and> rich_at data q \<and>
             (\<forall>a. 64 \<le> a \<and> a < q \<and> a mod 4 = 0 \<longrightarrow> \<not> rich_at data a))"
  proof (intro allI impI)
    fix m assume m: "64 \<le> m \<and> m mod 4 = 0 \<and> m + 8 \<le> int (length data) \<and> rich_at data m"
    then have m1: "64 \<le> m" and m2: "m mod 4 = 0" and m3: "m + 8 \<le> int (length data)"
      and m4: "rich_at data m" by simp_all
    from m3 have inr: "m + 4 < int (length data)" by simp
    from first_aligned_marker [OF m1 m2 inr m4] obtain q where
      q: "fst (find_rich data 64) = Inr (Some q) \<and> 64 \<le> q \<and> q \<le> m \<and> q mod 4 = 0 \<and>
          rich_at data q \<and> (\<forall>a. 64 \<le> a \<and> a < q \<and> a mod 4 = 0 \<longrightarrow> \<not> rich_at data a)" ..
    then have f: "fst (find_rich data 64) = Inr (Some q)" and q64: "64 \<le> q" and qm: "q \<le> m"
      by simp_all
    from q64 qm m3 obtain key where key: "load32 data (q + 4) = Some key"
      using load32_in_range [of "q + 4" data] by auto
    from qm m3 have qin: "q + 4 \<le> int (length data)" by simp
    from find_dans_no_fault [OF key qin] obtain n where n: "fst (find_dans data q q) = Inr n" ..
    with find_dans_not_minus_one [of data q] have n1: "n \<noteq> - 1" by auto
    have h1: "rhdr (rich_header_from_data data rhdr0) = q"
      by (simp add: from_data_found [OF f])
    have h2: "ret (rich_header_from_data data rhdr0) = Inr n"
      by (simp add: from_data_found [OF f] n)
    have "rhdr (rich_header_from_data data rhdr0) = q \<and>
             ret (rich_header_from_data data rhdr0) = Inr n \<and> n \<noteq> - 1 \<and>
             64 \<le> q \<and> q \<le> m \<and> q mod 4 = 0 \<and> rich_at data q \<and>
             (\<forall>a. 64 \<le> a \<and> a < q \<and> a mod 4 = 0 \<longrightarrow> \<not> rich_at data a)"
      by (rule conjI [OF h1 conjI [OF h2 conjI [OF n1 conjunct2 [OF q]]]])
    then show "\<exists>q n. rhdr (rich_header_from_data data rhdr0) = q \<and>
             ret (rich_header_from_data data rhdr0) = Inr n \<and> n \<noteq> - 1 \<and>
             64 \<le> q \<and> q \<le> m \<and> q mod 4 = 0 \<and> rich_at data q \<and>
             (\<forall>a. 64 \<le> a \<and> a < q \<and> a mod 4 = 0 \<longrightarrow> \<not> rich_at data a)"
      by (intro exI)
  qed
qed

theorem word_granular_scan_witness:
  "rich_at buf_unaligned 65 \<and>
   ret (rich_header_from_data buf_unaligned 7) = Inr (- 1) \<and>
   rhdr (rich_header_from_data buf_unaligned 7) = 7 \<and>
   (64 :: int) \<le> 64 \<and> (64 :: int) mod 4 = 0 \<and> 64 + 8 \<le> int (length buf_no_dans) \<and>
   rich_at buf_no_dans 64 \<and> rhdr (rich_header_from_data buf_no_dans 7) = 64 \<and>
   (\<exists>n. ret (rich_header_from_data buf_no_dans 7) = Inr n \<and> n \<noteq> - 1)"
proof -
  have u: "rich_at buf_unaligned 65" by code_simp
  have none: "\<forall>a. 64 \<le> a \<and> a mod 4 = 0 \<longrightarrow> \<not> rich_at buf_unaligned a"
  proof (intro allI impI)
    fix a :: int assume a: "64 \<le> a \<and> a mod 4 = 0"
    show "\<not> rich_at buf_unaligned a"
    proof (cases "a + 4 \<le> 73")
      case False
      then show ?thesis by (simp add: rich_at_def peek_def buf_unaligned_def)
    next
      case True
      with a have "a = 64 \<or> a = 68" by presburger
      then have "a \<in> set [64, 68]" by simp
      moreover have "\<forall>a \<in> set [64, 68]. \<not> rich_at buf_unaligned a" by code_simp
      ultimately show ?thesis by blast
    qed
  qed
  note t1 = word_granular_scan [of buf_unaligned 7, THEN conjunct2, THEN conjunct1]
  from t1 none have r1: "ret (rich_header_from_data buf_unaligned 7) = Inr (- 1) \<and>
      rhdr (rich_header_from_data buf_unaligned 7) = 7" by (rule mp)
  have m: "64 \<le> (64 :: int) \<and> (64 :: int) mod 4 = 0 \<and> 64 + 8 \<le> int (length buf_no_dans) \<and>
           rich_at buf_no_dans 64"
  proof (intro conjI)
    show "64 + 8 \<le> int (length buf_no_dans)" by (simp add: buf_no_dans_def)
    show "rich_at buf_no_dans 64" by code_simp
  qed simp_all
  note t2 = word_granular_scan [of buf_no_dans 7, THEN conjunct2, THEN conjunct2, THEN spec, of 64]
  from t2 m obtain q n where
    q: "rhdr (rich_header_from_data buf_no_dans 7) = q \<and>
        ret (rich_header_from_data buf_no_dans 7) = Inr n \<and> n \<noteq> - 1 \<and>
        64 \<le> q \<and> q \<le> 64 \<and> q mod 4 = 0 \<and> rich_at buf_no_dans q \<and>
        (\<forall>a. 64 \<le> a \<and> a < q \<and> a mod 4 = 0 \<longrightarrow> \<not> rich_at buf_no_dans a)"
    by (elim impE exE) assumption
  then have r2: "rhdr (rich_header_from_data buf_no_dans 7) = 64"
    and r3: "ret (rich_header_from_data buf_no_dans 7) = Inr n" "n \<noteq> - 1" by simp_all
  from r3 have r4: "\<exists>n. ret (rich_header_from_data buf_no_dans 7) = Inr n \<and> n \<noteq> - 1" by blast
  from u r1 m r2 r4 show ?thesis by simp
qed

text \<open>
  The signature at offset 65, inside the buffer and followed by four bytes of key: the
  call returns \<open>-1\<close>.
\<close>

theorem byte_granular_counterexample:
  "(64 :: int) \<le> 65 \<and> 65 + 4 \<le> int (length buf_unaligned) \<and> rich_at buf_unaligned 65 \<and>
   ret (rich_header_from_data buf_unaligned 0) = Inr (- 1)"
proof -
  have "65 + 4 \<le> int (length buf_unaligned)" by (simp add: buf_unaligned_def)
  moreover have "rich_at buf_unaligned 65" by code_simp
  moreover have "ret (rich_header_from_data buf_unaligned 0) = Inr (- 1)" by code_simp
  ultimately show ?thesis by simp
qed

section \<open>The classifiers are total\<close>

text \<open>
  C9. For every 16-bit product identifier both classifiers return a string.
  \<open>rich_header_productid_to_cstr\<close> returns the name the table has for the identifier,
  and the empty string exactly for the identifiers the table does not have, those above
  \<open>0x010e\<close>. \<open>rich_header_productid_to_vsver_cstr\<close> returns one of its release labels
  or the empty string, and the empty string for every identifier above \<open>0x010a\<close>.
\<close>

theorem classifier_total:
  "(rich_header_productid_to_cstr product_id = '''' \<longleftrightarrow> 0x010e < product_id) \<and>
   (product_id \<le> 0x010e \<longrightarrow>
      (product_id, rich_header_productid_to_cstr product_id) \<in> set product_names) \<and>
   (rich_header_productid_to_vsver_cstr product_id = '''' \<or>
      rich_header_productid_to_vsver_cstr product_id \<in> set vs_releases) \<and>
   (0x010a < product_id \<longrightarrow> rich_header_productid_to_vsver_cstr product_id = '''')"
proof (intro conjI impI)
  show "rich_header_productid_to_cstr product_id = '''' \<longleftrightarrow> 0x010e < product_id"
  proof (cases "product_id \<le> 0x010e")
    case True
    with cstr_known(2) [OF True] show ?thesis by simp
  next
    case False
    then have "0x010e < product_id" by simp
    with cstr_unknown show ?thesis by simp
  qed
next
  assume "product_id \<le> 0x010e"
  then show "(product_id, rich_header_productid_to_cstr product_id) \<in> set product_names"
    by (rule cstr_known(1))
next
  show "rich_header_productid_to_vsver_cstr product_id = '''' \<or>
      rich_header_productid_to_vsver_cstr product_id \<in> set vs_releases"
    by (rule vsver_label)
next
  assume "0x010a < product_id"
  then show "rich_header_productid_to_vsver_cstr product_id = ''''" by (rule vsver_unknown)
qed

theorem classifier_total_witness:
  "rich_header_productid_to_cstr 0xFFFF = '''' \<and>
   rich_header_productid_to_vsver_cstr 0xFFFF = '''' \<and>
   (0x00aa, rich_header_productid_to_cstr 0x00aa) \<in> set product_names \<and>
   rich_header_productid_to_cstr 0x00aa = ''Utc1600_C'' \<and>
   rich_header_productid_to_vsver_cstr 0x00aa = ''Visual Studio 2010 10.00''"
proof -
  have a: "(0x010e :: u16) < 0xFFFF" "(0x010a :: u16) < 0xFFFF" "(0x00aa :: u16) \<le> 0x010e"
    by simp_all
  have n: "rich_header_productid_to_cstr 0x00aa = ''Utc1600_C''" by code_simp
  have v: "rich_header_productid_to_vsver_cstr 0x00aa = ''Visual Studio 2010 10.00''" by code_simp
  from classifier_total [of "0xFFFF"] a(1,2)
  have "rich_header_productid_to_cstr 0xFFFF = ''''"
    and "rich_header_productid_to_vsver_cstr 0xFFFF = ''''" by blast+
  moreover from classifier_total [of "0x00aa"] a(3)
  have "(0x00aa, rich_header_productid_to_cstr 0x00aa) \<in> set product_names" by blast
  ultimately show ?thesis using n v by (intro conjI)
qed

section \<open>Short buffers\<close>

text \<open>
  C10. A buffer of at most 68 bytes: the forward loop's condition \<open>64 + 4 < data_size\<close>
  fails at once, so the call returns \<open>-1\<close>, leaves \<open>*rhdr\<close> alone and has read nothing,
  inside the buffer or outside it.
\<close>

theorem short_buffer_not_found:
  "length data \<le> 68 \<Longrightarrow>
     rich_header_from_data data rhdr0 = \<lparr>ret = Inr (- 1), rhdr = rhdr0, reads = []\<rparr>"
  by (simp add: rich_header_from_data_def find_rich_stop)

theorem short_buffer_not_found_witness:
  "length (replicate 68 (0 :: byte)) \<le> 68 \<and>
   rich_header_from_data (replicate 68 0) 7 = \<lparr>ret = Inr (- 1), rhdr = 7, reads = []\<rparr>"
  using short_buffer_not_found [of "replicate 68 (0 :: byte)" 7] by simp

end
